theory Spec2Isabelle
  imports Complex_Main "HOL-Library.Char_ord" "HOL-Library.List_Lexorder" "HOL-Library.Multiset"
    "HOL-Library.Log_Nat"
begin

section \<open>The working tree\<close>

text \<open>
  The program (\<^verbatim>\<open>epub-compress.js\<close>) extracts an EPUB into a temporary directory, rewrites
  files there in place, and packs the directory again. The directory is modelled as the
  list of its entries in the order \<^verbatim>\<open>readdir\<close> reports them; an entry is a regular
  file, a directory, a symbolic link or a special file, the four cases the program's
  \<^verbatim>\<open>Dirent\<close> and \<^verbatim>\<open>Stats\<close> tests tell apart. A link records what following it finds.
  Links that point back into the tree are outside the model: the tree the program works on
  is written by the extraction, which creates directories and regular files only.

  A \<open>char\<close> stands for one code unit of a JavaScript string below 256, ordered by its
  code, so the order on \<open>string\<close> is the order of JavaScript's default \<^verbatim>\<open>sort\<close>. File
  content is held the same way (for text: the decoded string).

  A path below the root of the tree is the list of its segments; \<open>full\<close> and \<open>relative\<close>
  give the strings the program handles.
\<close>

type_synonym bytes = string
type_synonym path = "string list"

datatype link = ToFile bytes | ToDir | Dangling

datatype node = File bytes | Dir "(string \<times> node) list" | Symlink link | Special

type_synonym tree = "(string \<times> node) list"

datatype exn = ENOENT | EISDIR | ENXIO | Error string

text \<open>\<open>full dir p\<close> is \<^verbatim>\<open>path.join(dir, ...p)\<close>, \<open>relative p\<close> is
  \<^verbatim>\<open>path.relative(dir, full)\<close> for a path \<open>full\<close> below \<open>dir\<close> (POSIX separators).\<close>

definition full :: "string \<Rightarrow> path \<Rightarrow> string" where
  "full dir p = dir @ concat (map (\<lambda>s. CHR ''/'' # s) p)"

fun relative :: "path \<Rightarrow> string" where
  "relative [] = []"
| "relative [s] = s"
| "relative (s # t) = s @ CHR ''/'' # relative t"

text \<open>\<open>node_at\<close> finds the entry a path names; \<open>lstat\<close> is what the program can see of
  it without reading a directory: the entry itself, a directory without its listing.
  Links are not followed here.\<close>

fun node_at :: "tree \<Rightarrow> path \<Rightarrow> node option" where
  "node_at es [] = None"
| "node_at es (n # ns) =
     (case map_of es n of
        None \<Rightarrow> None
      | Some nd \<Rightarrow>
          if ns = [] then Some nd
          else (case nd of Dir sub \<Rightarrow> node_at sub ns | _ \<Rightarrow> None))"

fun shallow :: "node \<Rightarrow> node" where
  "shallow (Dir sub) = Dir []"
| "shallow nd = nd"

definition lstat :: "tree \<Rightarrow> path \<Rightarrow> node option" where
  "lstat t p = map_option shallow (node_at t p)"

definition readFile :: "tree \<Rightarrow> path \<Rightarrow> exn + bytes" where
  "readFile t p =
     (case lstat t p of
        None \<Rightarrow> Inl ENOENT
      | Some (File c) \<Rightarrow> Inr c
      | Some (Dir sub) \<Rightarrow> Inl EISDIR
      | Some (Symlink (ToFile c)) \<Rightarrow> Inr c
      | Some (Symlink ToDir) \<Rightarrow> Inl EISDIR
      | Some (Symlink Dangling) \<Rightarrow> Inl ENOENT
      | Some Special \<Rightarrow> Inl ENXIO)"

fun set_content :: "bytes \<Rightarrow> node \<Rightarrow> node" where
  "set_content c (File old) = File c"
| "set_content c (Symlink (ToFile old)) = Symlink (ToFile c)"
| "set_content c nd = nd"

fun modify :: "path \<Rightarrow> (node \<Rightarrow> node) \<Rightarrow> tree \<Rightarrow> tree" where
  "modify [] f es = es"
| "modify (n # ns) f [] = []"
| "modify (n # ns) f ((m, nd) # es) =
     (if m = n
      then (m, if ns = [] then f nd
               else (case nd of Dir sub \<Rightarrow> Dir (modify ns f sub) | _ \<Rightarrow> nd)) # es
      else (m, nd) # modify (n # ns) f es)"

text \<open>\<^verbatim>\<open>fsp.writeFile\<close> replaces the content of the file a path names. The program only
  writes a path it has just read, so the other cases of \<^verbatim>\<open>writeFile\<close> (creating a
  file, a directory as target) are an error here.\<close>

definition writeFile :: "tree \<Rightarrow> path \<Rightarrow> bytes \<Rightarrow> exn option \<times> tree" where
  "writeFile t p c =
     (case readFile t p of
        Inl e \<Rightarrow> (Some e, t)
      | Inr old \<Rightarrow> (None, modify p (set_content c) t))"

section \<open>walk\<close>

text \<open>The inner \<^verbatim>\<open>_walk(p)\<close>: the entries of a directory in \<^verbatim>\<open>readdir\<close> order;
  directories are entered, files and links are pushed, special files are passed over.\<close>

fun walk_dir :: "path \<Rightarrow> tree \<Rightarrow> path list" where
  "walk_dir p [] = []"
| "walk_dir p ((name, Dir sub) # es) = walk_dir (p @ [name]) sub @ walk_dir p es"
| "walk_dir p ((name, File c) # es) = (p @ [name]) # walk_dir p es"
| "walk_dir p ((name, Symlink l) # es) = (p @ [name]) # walk_dir p es"
| "walk_dir p ((name, Special) # es) = walk_dir p es"

definition walk :: "tree \<Rightarrow> path list" where
  "walk t = walk_dir [] t"

section \<open>Extensions\<close>

text \<open>\<^verbatim>\<open>path.extname\<close> of Node on the last segment of a path: the text from the last dot
  on; empty when there is no dot, when the only dot is the first character, and for
  \<^verbatim>\<open>..\<close>.\<close>

definition basename :: "path \<Rightarrow> string" where
  "basename p = (if p = [] then [] else last p)"

definition extname :: "string \<Rightarrow> string" where
  "extname base =
     (let r = rev base;
          after = takeWhile (\<lambda>c. c \<noteq> CHR ''.'') r;
          upto = dropWhile (\<lambda>c. c \<noteq> CHR ''.'') r
      in if upto = [] \<or> tl upto = [] \<or> base = ''..'' then []
         else CHR ''.'' # rev after)"

text \<open>\<^verbatim>\<open>toLowerCase\<close> on code units below 256: the letters A to Z and the capital
  letters of Latin-1 move up by 32.\<close>

definition lower_char :: "char \<Rightarrow> char" where
  "lower_char c =
     (let n = (of_char c :: nat)
      in if (65 \<le> n \<and> n \<le> 90) \<or> (192 \<le> n \<and> n \<le> 222 \<and> n \<noteq> 215)
         then char_of (n + 32) else c)"

definition toLowerCase :: "string \<Rightarrow> string" where
  "toLowerCase s = map lower_char s"

section \<open>JavaScript numbers\<close>

text \<open>The quality is a JavaScript number, an IEEE 754 double: \<^verbatim>\<open>NaN\<close> (what
  \<^verbatim>\<open>Number\<close> makes of a text that is no number), an infinity, negative zero, or a finite
  double, held by its exact value (\<open>Num 0\<close> is positive zero). \<open>round_double\<close> takes the
  exact result of an operation to the nearest double, ties to the even significand:
  53 bits of significand, exponents from -1022 (below it the subnormal spacing
  \<open>2\<^sup>-\<^sup>1\<^sup>0\<^sup>7\<^sup>4\<close>) to 1023, overflow to an infinity, underflow to a zero of the result's
  sign.\<close>

datatype number = NaN | PosInf | NegInf | NegZero | Num rat

definition pow2 :: "int \<Rightarrow> rat" where
  "pow2 e = (if 0 \<le> e then 2 ^ nat e else 1 / 2 ^ nat (- e))"

definition round_even :: "rat \<Rightarrow> int" where
  "round_even x =
     (let f = \<lfloor>x\<rfloor>; d = x - of_int f
      in if d < 1 / 2 then f else if 1 / 2 < d then f + 1 else if even f then f else f + 1)"

text \<open>For \<open>a > 0\<close>, the \<open>e\<close> with \<open>2\<^sup>e \<le> a < 2\<^sup>e\<^sup>+\<^sup>1\<close>.\<close>

definition exponent :: "rat \<Rightarrow> int" where
  "exponent a =
     (let d = bitlen (fst (quotient_of a)) - bitlen (snd (quotient_of a))
      in if pow2 d \<le> a then d else d - 1)"

definition round_double :: "rat \<Rightarrow> number" where
  "round_double x =
     (if x = 0 then Num 0
      else (let a = \<bar>x\<bar>;
                e = max (exponent a) (- 1022);
                ulp = pow2 (e - 52);
                r = of_int (round_even (a / ulp)) * ulp
            in if 1024 \<le> exponent r then (if x < 0 then NegInf else PosInf)
               else if r = 0 then (if x < 0 then NegZero else Num 0)
               else Num (if x < 0 then - r else r)))"

definition negative :: "number \<Rightarrow> bool" where
  "negative x =
     (case x of NegInf \<Rightarrow> True | NegZero \<Rightarrow> True | Num r \<Rightarrow> r < 0 | _ \<Rightarrow> False)"

definition signed_inf :: "bool \<Rightarrow> number" where
  "signed_inf neg = (if neg then NegInf else PosInf)"

definition signed_zero :: "bool \<Rightarrow> number" where
  "signed_zero neg = (if neg then NegZero else Num 0)"

fun finite_value :: "number \<Rightarrow> rat option" where
  "finite_value (Num r) = Some r"
| "finite_value NegZero = Some 0"
| "finite_value x = None"

text \<open>The operators \<^verbatim>\<open>-\<close> and \<^verbatim>\<open>/\<close> and \<^verbatim>\<open>Math.max\<close> of two arguments.\<close>

definition js_sub :: "number \<Rightarrow> number \<Rightarrow> number" where
  "js_sub x y =
     (if x = NaN \<or> y = NaN then NaN
      else case (finite_value x, finite_value y) of
             (None, None) \<Rightarrow> if x = y then NaN else x
           | (None, Some b) \<Rightarrow> x
           | (Some a, None) \<Rightarrow> signed_inf (\<not> negative y)
           | (Some a, Some b) \<Rightarrow>
               if a - b = 0 then (if x = NegZero \<and> y = Num 0 then NegZero else Num 0)
               else round_double (a - b))"

definition js_div :: "number \<Rightarrow> number \<Rightarrow> number" where
  "js_div x y =
     (if x = NaN \<or> y = NaN then NaN
      else case (finite_value x, finite_value y) of
             (None, None) \<Rightarrow> NaN
           | (None, Some b) \<Rightarrow> signed_inf (negative x \<noteq> negative y)
           | (Some a, None) \<Rightarrow> signed_zero (negative x \<noteq> negative y)
           | (Some a, Some b) \<Rightarrow>
               if b = 0 then (if a = 0 then NaN else signed_inf (negative x \<noteq> negative y))
               else if a = 0 then signed_zero (negative x \<noteq> negative y)
               else round_double (a / b))"

definition js_less :: "number \<Rightarrow> number \<Rightarrow> bool" where
  "js_less x y =
     (case (finite_value x, finite_value y) of
        (Some a, Some b) \<Rightarrow> a < b \<or> (a = b \<and> x = NegZero \<and> y = Num 0)
      | _ \<Rightarrow> x = NegInf \<and> y \<noteq> NegInf \<or> y = PosInf \<and> x \<noteq> PosInf)"

definition js_max :: "number \<Rightarrow> number \<Rightarrow> number" where
  "js_max x y = (if x = NaN \<or> y = NaN then NaN else if js_less x y then y else x)"

section \<open>The minification engines\<close>

text \<open>The third-party engines are parameters: each either throws or returns. \<^verbatim>\<open>terser\<close>
  returns an object whose \<^verbatim>\<open>error\<close> and \<^verbatim>\<open>code\<close> fields may each be absent.\<close>

datatype plugin = Mozjpeg number | Pngquant number number

record minify_output =
  error :: "exn option"
  code :: "string option"

record engines =
  htmlMinify :: "string \<Rightarrow> exn + string"
  csso_minify :: "string \<Rightarrow> exn + string"
  terser :: "string \<Rightarrow> exn + minify_output"
  imagemin_buffer :: "bytes \<Rightarrow> plugin list \<Rightarrow> exn + bytes"

section \<open>The transformers\<close>

definition minifyHtmlFile :: "engines \<Rightarrow> path \<Rightarrow> tree \<Rightarrow> exn option \<times> tree" where
  "minifyHtmlFile E p t =
     (case readFile t p of
        Inl e \<Rightarrow> (Some e, t)
      | Inr src \<Rightarrow>
          (case htmlMinify E src of
             Inl e \<Rightarrow> (Some e, t)
           | Inr mn \<Rightarrow> writeFile t p mn))"

definition minifyCssFile :: "engines \<Rightarrow> path \<Rightarrow> tree \<Rightarrow> exn option \<times> tree" where
  "minifyCssFile E p t =
     (case readFile t p of
        Inl e \<Rightarrow> (Some e, t)
      | Inr src \<Rightarrow>
          (case csso_minify E src of
             Inl e \<Rightarrow> (Some e, t)
           | Inr out \<Rightarrow> writeFile t p out))"

text \<open>\<^verbatim>\<open>if (r.error) throw r.error; if (r.code) await fsp.writeFile(...)\<close>: an empty
  string is falsy.\<close>

definition minifyJsFile :: "engines \<Rightarrow> path \<Rightarrow> tree \<Rightarrow> exn option \<times> tree" where
  "minifyJsFile E p t =
     (case readFile t p of
        Inl e \<Rightarrow> (Some e, t)
      | Inr src \<Rightarrow>
          (case terser E src of
             Inl e \<Rightarrow> (Some e, t)
           | Inr r \<Rightarrow>
               (case error r of
                  Some e \<Rightarrow> (Some e, t)
                | None \<Rightarrow>
                    (case code r of
                       None \<Rightarrow> (None, t)
                     | Some c \<Rightarrow> if c \<noteq> [] then writeFile t p c else (None, t)))))"

text \<open>The plugins \<open>optimizeImage\<close> chooses by extension; \<open>None\<close> is its early
  \<^verbatim>\<open>return\<close>. The literal \<^verbatim>\<open>0.1\<close> is the double nearest to one tenth; 30 and 100 are
  doubles. The parameter's default quality never applies: \<open>processFiles\<close> always passes
  one.\<close>

definition plugins_for :: "string \<Rightarrow> number \<Rightarrow> plugin list option" where
  "plugins_for ext quality =
     (if ext = ''.jpg'' \<or> ext = ''.jpeg'' then Some [Mozjpeg quality]
      else if ext = ''.png''
        then Some [Pngquant
                     (js_max (round_double (1 / 10))
                        (js_div (js_sub quality (Num 30)) (Num 100)))
                     (js_div quality (Num 100))]
      else None)"

definition optimizeImage :: "engines \<Rightarrow> path \<Rightarrow> number \<Rightarrow> tree \<Rightarrow> exn option \<times> tree" where
  "optimizeImage E p quality t =
     (let ext = toLowerCase (extname (basename p))
      in case readFile t p of
           Inl e \<Rightarrow> (Some e, t)
         | Inr input \<Rightarrow>
             (case plugins_for ext quality of
                None \<Rightarrow> (None, t)
              | Some plugins \<Rightarrow>
                  (case imagemin_buffer E input plugins of
                     Inl e \<Rightarrow> (Some e, t)
                   | Inr out \<Rightarrow>
                       if length out < length input then writeFile t p out else (None, t))))"

subsection \<open>minifySvg\<close>

text \<open>The three steps of \<^verbatim>\<open>minifySvg\<close>: \<^verbatim>\<open>replace(/<!--[\s\S]*?-->/g, "")\<close>,
  \<^verbatim>\<open>replace(/\s{2,}/g, " ")\<close> and \<^verbatim>\<open>trim()\<close>. \<open>is_space\<close> is the class \<^verbatim>\<open>\s\<close>
  below 256.\<close>

definition is_space :: "char \<Rightarrow> bool" where
  "is_space c = ((of_char c :: nat) \<in> {9, 10, 11, 12, 13, 32, 160})"

fun after_close :: "string \<Rightarrow> string option" where
  "after_close [] = None"
| "after_close (c # cs) =
     (if take 3 (c # cs) = ''-->'' then Some (drop 3 (c # cs)) else after_close cs)"

lemma after_close_shorter: "after_close s = Some r \<Longrightarrow> length r < length s"
  by (induction s) (auto split: if_splits)

function strip_comments :: "string \<Rightarrow> string" where
  "strip_comments [] = []"
| "strip_comments (c # cs) =
     (if take 4 (c # cs) = ''<!--''
      then (case after_close (drop 4 (c # cs)) of
              Some rest \<Rightarrow> strip_comments rest
            | None \<Rightarrow> c # strip_comments cs)
      else c # strip_comments cs)"
  by pat_completeness auto
termination
proof (relation "measure length")
  fix c cs rest
  assume "after_close (drop 4 (c # cs)) = Some rest"
  then have "length rest < length (drop 4 (c # cs))"
    by (rule after_close_shorter)
  then show "(rest, c # cs) \<in> measure length"
    by simp
qed auto

function collapse_spaces :: "string \<Rightarrow> string" where
  "collapse_spaces [] = []"
| "collapse_spaces (c # cs) =
     (if is_space c
      then (if takeWhile is_space cs = [] then c # collapse_spaces cs
            else CHR '' '' # collapse_spaces (dropWhile is_space cs))
      else c # collapse_spaces cs)"
  by pat_completeness auto
termination
  by (relation "measure length") (auto simp: length_dropWhile_le less_Suc_eq_le)

definition trim :: "string \<Rightarrow> string" where
  "trim s = rev (dropWhile is_space (rev (dropWhile is_space s)))"

definition minifySvg :: "path \<Rightarrow> tree \<Rightarrow> exn option \<times> tree" where
  "minifySvg p t =
     (case readFile t p of
        Inl e \<Rightarrow> (Some e, t)
      | Inr src \<Rightarrow> writeFile t p (trim (collapse_spaces (strip_comments src))))"

section \<open>processFiles\<close>

text \<open>The chain of tests on the extension, in the order of the source, names the call
  each branch makes.\<close>

datatype action = MinifyHtml | MinifyCss | MinifyJs | OptimizeImage | MinifySvg | Skip

record process_opts =
  images :: bool
  quality :: number

definition classify :: "bool \<Rightarrow> string \<Rightarrow> action" where
  "classify imgs ext =
     (if ext = ''.html'' \<or> ext = ''.xhtml'' \<or> ext = ''.htm'' \<or> ext = ''.xml'' \<or> ext = ''.opf''
        then MinifyHtml
      else if ext = ''.css'' then MinifyCss
      else if ext = ''.js'' then MinifyJs
      else if imgs \<and> ext \<in> set [''.jpg'', ''.jpeg'', ''.png''] then OptimizeImage
      else if ext = ''.svg'' then MinifySvg
      else Skip)"

datatype message = Skipping string | Failed string exn

text \<open>The body of the \<^verbatim>\<open>try\<close> block for one file.\<close>

definition transform :: "engines \<Rightarrow> process_opts \<Rightarrow> path \<Rightarrow> tree \<Rightarrow> exn option \<times> tree" where
  "transform E opts p t =
     (case classify (images opts) (toLowerCase (extname (basename p))) of
        MinifyHtml \<Rightarrow> minifyHtmlFile E p t
      | MinifyCss \<Rightarrow> minifyCssFile E p t
      | MinifyJs \<Rightarrow> minifyJsFile E p t
      | OptimizeImage \<Rightarrow> optimizeImage E p (quality opts) t
      | MinifySvg \<Rightarrow> minifySvg p t
      | Skip \<Rightarrow> (None, t))"

text \<open>One turn of the loop: the \<^verbatim>\<open>try\<close> block and its \<^verbatim>\<open>catch\<close>, which warns and goes
  on.\<close>

definition process_one ::
  "engines \<Rightarrow> process_opts \<Rightarrow> path \<Rightarrow> tree \<times> message list \<Rightarrow> tree \<times> message list" where
  "process_one E opts p st =
     (let t = fst st; lg = snd st; rel = relative p
      in case transform E opts p t of
           (Some e, t') \<Rightarrow> (t', lg @ [Failed rel e])
         | (None, t') \<Rightarrow>
             (t', if classify (images opts) (toLowerCase (extname (basename p))) = Skip
                  then lg @ [Skipping rel] else lg))"

fun process_loop ::
  "engines \<Rightarrow> process_opts \<Rightarrow> path list \<Rightarrow> tree \<times> message list \<Rightarrow> tree \<times> message list" where
  "process_loop E opts [] st = st"
| "process_loop E opts (p # ps) st = process_loop E opts ps (process_one E opts p st)"

definition processFiles :: "engines \<Rightarrow> process_opts \<Rightarrow> tree \<Rightarrow> tree \<times> message list" where
  "processFiles E opts t = process_loop E opts (walk t) (t, [])"

section \<open>createEpub\<close>

text \<open>The archive record holds what the program hands to the archiver, in the order of
  the calls: \<^verbatim>\<open>archive.append(stream, {name, store: true})\<close> gives an entry with the
  bytes of the stream, \<^verbatim>\<open>archive.file(file, {name})\<close> an entry that names the file to
  read. The level is the archiver's \<^verbatim>\<open>zlib.level\<close>; an entry with \<open>store\<close> set is not
  compressed. The output path holds \<open>None\<close> until \<^verbatim>\<open>createWriteStream\<close> opens it. The
  order in which the archiver writes the entries is given further down, by \<open>written\<close>.\<close>

datatype source = Stream bytes | FromFile path

record entry =
  name :: string
  source :: source
  store :: bool

record archive =
  zlib_level :: int
  entries :: "entry list"
  finalized :: bool

text \<open>\<^verbatim>\<open>fs.existsSync\<close> and \<^verbatim>\<open>fsp.stat(...).isFile()\<close> follow links.\<close>

definition existsSync :: "tree \<Rightarrow> path \<Rightarrow> bool" where
  "existsSync t p =
     (case lstat t p of
        None \<Rightarrow> False
      | Some (Symlink Dangling) \<Rightarrow> False
      | Some nd \<Rightarrow> True)"

definition stat_isFile :: "tree \<Rightarrow> path \<Rightarrow> exn + bool" where
  "stat_isFile t p =
     (case lstat t p of
        None \<Rightarrow> Inl ENOENT
      | Some (File c) \<Rightarrow> Inr True
      | Some (Dir sub) \<Rightarrow> Inr False
      | Some (Symlink (ToFile c)) \<Rightarrow> Inr True
      | Some (Symlink ToDir) \<Rightarrow> Inr False
      | Some (Symlink Dangling) \<Rightarrow> Inl ENOENT
      | Some Special \<Rightarrow> Inr False)"

text \<open>The loop over the sorted paths.\<close>

fun add_files :: "tree \<Rightarrow> path list \<Rightarrow> archive \<Rightarrow> exn option \<times> archive" where
  "add_files t [] a = (None, a)"
| "add_files t (file # files) a =
     (let rel = relative file
      in if rel = ''mimetype'' then add_files t files a
         else (case stat_isFile t file of
                 Inl e \<Rightarrow> (Some e, a)
               | Inr isf \<Rightarrow>
                   add_files t files
                     (if isf
                      then a\<lparr>entries := entries a @
                             [\<lparr>name = rel, source = FromFile file, store = False\<rparr>]\<rparr>
                      else a)))"

definition createEpub ::
  "string \<Rightarrow> int \<Rightarrow> tree \<Rightarrow> archive option \<Rightarrow> exn option \<times> archive option" where
  "createEpub dir level t out =
     (let mimePath = [''mimetype'']
      in if \<not> existsSync t mimePath
         then (Some (Error ''No mimetype file found at root of EPUB. Aborting.''), out)
         else
           (let a0 = \<lparr>zlib_level = level, entries = [], finalized = False\<rparr>
            in case readFile t mimePath of
                 Inl e \<Rightarrow> (Some e, Some a0)
               | Inr c \<Rightarrow>
                   (let a1 = a0\<lparr>entries :=
                               [\<lparr>name = ''mimetype'', source = Stream c, store = True\<rparr>]\<rparr>;
                        allFiles = sort_key (full dir) (walk t)
                    in case add_files t allFiles a1 of
                         (Some e, a) \<Rightarrow> (Some e, Some a)
                       | (None, a) \<Rightarrow> (None, Some (a\<lparr>finalized := True\<rparr>)))))"

section \<open>The archiver's queue\<close>

text \<open>The \<open>entries\<close> of an archive are the calls \<open>createEpub\<close> makes, in their order; the
  order in which the archiver writes them is another matter. An appended stream is queued
  for writing at once. A file named by \<^verbatim>\<open>archive.file\<close> first goes to the archiver's stat
  queue, which runs up to \<^verbatim>\<open>statConcurrency\<close> (4 unless configured, and \<open>createEpub\<close>
  does not configure it) \<^verbatim>\<open>lstat\<close> calls at a time, and is queued for writing when its
  \<^verbatim>\<open>lstat\<close> returns. \<open>createEpub\<close> awaits none of this before \<^verbatim>\<open>finalize\<close>, and it
  appends its only stream before it names its first file.

  A schedule says, for each \<^verbatim>\<open>lstat\<close> that returns, which of those in flight it is
  (an index, taken modulo their number; the oldest once the schedule is used up).
  \<open>stat_queue\<close> gives the order in which the files come out of the stat queue, \<open>written\<close>
  the order of the entries in the output; \<open>call_names\<close> and \<open>written_names\<close> are the names
  in the order of the calls and in the order written.\<close>

definition statConcurrency :: nat where
  "statConcurrency = 4"

function stat_queue :: "nat list \<Rightarrow> 'a list \<Rightarrow> 'a list \<Rightarrow> 'a list" where
  "stat_queue sched running waiting =
     (let room = statConcurrency - length running;
          started = running @ take room waiting;
          queued = drop room waiting
      in if started = [] then []
         else (let i = (case sched of [] \<Rightarrow> 0 | k # ks \<Rightarrow> k mod length started)
               in started ! i #
                  stat_queue (tl sched) (take i started @ drop (Suc i) started) queued))"
  by pat_completeness auto
termination
proof (relation "measure (\<lambda>(sched, running, waiting). length running + length waiting)")
  show "wf (measure (\<lambda>(sched, running, waiting). length running + length waiting))"
    by simp
next
  fix sched :: "nat list" and running waiting :: "'a list" and room started queued i
  assume room: "room = statConcurrency - length running"
    and started: "started = running @ take room waiting"
    and queued: "queued = drop room waiting"
    and ne: "started \<noteq> []"
    and i: "i = (case sched of [] \<Rightarrow> 0 | k # ks \<Rightarrow> k mod length started)"
  have lt: "i < length started"
    using ne i by (cases sched) simp_all
  have total: "length started + length queued = length running + length waiting"
    using started queued by simp
  have "length (take i started @ drop (Suc i) started) = length started - 1"
    using lt by simp
  then have "length (take i started @ drop (Suc i) started) + length queued
               < length running + length waiting"
    using total lt by simp
  then show "((tl sched, take i started @ drop (Suc i) started, queued),
              sched, running, waiting)
             \<in> measure (\<lambda>(sched, running, waiting). length running + length waiting)"
    by simp
qed

fun is_stream :: "source \<Rightarrow> bool" where
  "is_stream (Stream b) = True"
| "is_stream (FromFile p) = False"

definition written :: "nat list \<Rightarrow> archive \<Rightarrow> entry list" where
  "written sched a =
     filter (\<lambda>e. is_stream (source e)) (entries a) @
     stat_queue sched [] (filter (\<lambda>e. \<not> is_stream (source e)) (entries a))"

definition call_names :: "archive option \<Rightarrow> string list" where
  "call_names out = (case out of None \<Rightarrow> [] | Some a \<Rightarrow> map name (entries a))"

definition written_names :: "nat list \<Rightarrow> archive option \<Rightarrow> string list" where
  "written_names sched out =
     (case out of None \<Rightarrow> [] | Some a \<Rightarrow> map name (written sched a))"

section \<open>run\<close>

text \<open>The file system the job sees: the temporary directory (\<open>None\<close> while it does not
  exist) and the output path. The extraction is a parameter: what it writes into the
  directory, and whether it fails. \<open>run\<close> returns the exit status of the process: 2 for
  the usage error, 1 from the \<^verbatim>\<open>catch\<close> at the end of the file, 0 otherwise.\<close>

record world =
  tmp :: "tree option"
  out_file :: "archive option"

record argv =
  positional :: "string list"
  arg_images :: bool
  arg_quality :: number
  arg_level :: int

definition removeDir :: "world \<Rightarrow> world" where
  "removeDir w = w\<lparr>tmp := None\<rparr>"

definition run ::
  "engines \<Rightarrow> (string \<Rightarrow> tree \<times> exn option) \<Rightarrow> string \<Rightarrow> argv \<Rightarrow> world \<Rightarrow> int \<times> world" where
  "run E unzip dir args w =
     (case positional args of
        inPath # outPath # others \<Rightarrow>
          if inPath = [] \<or> outPath = [] then (2, w)
          else
            (case unzip inPath of
               (t, Some e) \<Rightarrow> (1, w\<lparr>tmp := Some t\<rparr>)
             | (t, None) \<Rightarrow>
                 (let t' = fst (processFiles E
                                 \<lparr>images = arg_images args, quality = arg_quality args\<rparr> t)
                  in case createEpub dir (arg_level args) t' (out_file w) of
                       (Some e, out) \<Rightarrow> (1, w\<lparr>tmp := Some t', out_file := out\<rparr>)
                     | (None, out) \<Rightarrow> (0, removeDir (w\<lparr>tmp := Some t', out_file := out\<rparr>))))
      | _ \<Rightarrow> (2, w))"

section \<open>Well-formed trees, the table of actions, sample data\<close>

text \<open>The names \<^verbatim>\<open>readdir\<close> reports are not empty, are not \<^verbatim>\<open>.\<close> or \<^verbatim>\<open>..\<close>, hold no
  separator, and are distinct within one directory.\<close>

definition valid_name :: "string \<Rightarrow> bool" where
  "valid_name n = (n \<noteq> [] \<and> n \<noteq> ''.'' \<and> n \<noteq> ''..'' \<and> CHR ''/'' \<notin> set n)"

fun wf_tree :: "tree \<Rightarrow> bool" where
  "wf_tree [] = True"
| "wf_tree ((n, Dir sub) # es) =
     (valid_name n \<and> n \<notin> set (map fst es) \<and> wf_tree sub \<and> wf_tree es)"
| "wf_tree ((n, nd) # es) = (valid_name n \<and> n \<notin> set (map fst es) \<and> wf_tree es)"

text \<open>The entries \<open>walk\<close> pushes (\<^verbatim>\<open>entry.isFile() || entry.isSymbolicLink()\<close>), and the
  paths at which the tree holds one.\<close>

fun pushed :: "node \<Rightarrow> bool" where
  "pushed (File c) = True"
| "pushed (Symlink l) = True"
| "pushed nd = False"

definition leaf_at :: "tree \<Rightarrow> path \<Rightarrow> bool" where
  "leaf_at t s = (case node_at t s of None \<Rightarrow> False | Some nd \<Rightarrow> pushed nd)"

text \<open>The table of the specification's file classifier, row by row.\<close>

definition spec_action :: "bool \<Rightarrow> string \<Rightarrow> action" where
  "spec_action imgs ext =
     (if ext \<in> {''.html'', ''.xhtml'', ''.htm'', ''.xml'', ''.opf''} then MinifyHtml
      else if ext = ''.css'' then MinifyCss
      else if ext = ''.js'' then MinifyJs
      else if ext = ''.svg'' then MinifySvg
      else if ext \<in> {''.jpg'', ''.jpeg'', ''.png''}
        then (if imgs then OptimizeImage else Skip)
      else Skip)"

text \<open>Engines and trees to run the definitions on: the markup engine collapses blanks,
  the style engine drops them, the script engine throws on the text \<^verbatim>\<open>(\<close>, returns an
  error field on \<^verbatim>\<open>{\<close> and trims anything else, the image engine drops the last
  byte.\<close>

definition sample_engines :: engines where
  "sample_engines =
     \<lparr>htmlMinify = (\<lambda>s. Inr (collapse_spaces s)),
      csso_minify = (\<lambda>s. Inr (filter (\<lambda>c. \<not> is_space c) s)),
      terser = (\<lambda>s. if s = ''('' then Inl (Error ''Unexpected token'')
                      else if s = ''{''
                        then Inr \<lparr>error = Some (Error ''Unexpected token''), code = None\<rparr>
                      else Inr \<lparr>error = None, code = Some (trim s)\<rparr>),
      imagemin_buffer = (\<lambda>b ps. Inr (butlast b))\<rparr>"

definition sample_tree :: tree where
  "sample_tree =
     [(''mimetype'', File ''application/epub+zip''),
      (''OEBPS'', Dir [(''bad.js'', File ''(''),
                       (''style.css'', File ''body { }''),
                       (''cover.PNG'', File ''png''),
                       (''app.js'', File '' f() '')])]"

definition sample_args :: argv where
  "sample_args =
     \<lparr>positional = [''in.epub'', ''out.epub''], arg_images = True, arg_quality = Num 80,
      arg_level = 9\<rparr>"

definition sample_world :: world where
  "sample_world = \<lparr>tmp = None, out_file = None\<rparr>"

text \<open>An extraction that yields the sample tree, one that yields a tree without
  \<^verbatim>\<open>mimetype\<close>, one that yields a tree in which \<^verbatim>\<open>mimetype\<close> is a directory, and one
  that fails on its input.\<close>

definition sample_unzip :: "string \<Rightarrow> tree \<times> exn option" where
  "sample_unzip inPath = (sample_tree, None)"

definition bare_tree :: tree where
  "bare_tree = [(''content.opf'', File ''<package> </package>'')]"

definition bare_unzip :: "string \<Rightarrow> tree \<times> exn option" where
  "bare_unzip inPath = (bare_tree, None)"



definition failing_unzip :: "string \<Rightarrow> tree \<times> exn option" where
  "failing_unzip inPath = ([], Some (Error ''invalid signature''))"

section \<open>Facts about the tree\<close>

lemma set_content_cases:
  "(\<exists>old. nd = File old \<and> set_content c nd = File c) \<or>
   (\<exists>old. nd = Symlink (ToFile old) \<and> set_content c nd = Symlink (ToFile c)) \<or>
   ((\<forall>old. nd \<noteq> File old) \<and> (\<forall>old. nd \<noteq> Symlink (ToFile old)) \<and> set_content c nd = nd)"
  by (cases "(c, nd)" rule: set_content.cases) auto

lemma shallow_set_content: "shallow (set_content c nd) = set_content c (shallow nd)"
  by (cases "(c, nd)" rule: set_content.cases) auto

lemma map_of_modify_other:
  "m \<noteq> n \<Longrightarrow> map_of (modify (n # ns) f es) m = map_of es m"
  by (induction es) auto

lemma map_of_modify_same:
  "map_of (modify (n # ns) f es) n =
     map_option (\<lambda>nd. if ns = [] then f nd
                        else (case nd of Dir sub \<Rightarrow> Dir (modify ns f sub) | _ \<Rightarrow> nd))
       (map_of es n)"
  by (induction es) (auto split: node.splits)

text \<open>Replacing the content of one file changes what \<open>lstat\<close> sees at that path only.\<close>

lemma lstat_modify:
  "lstat (modify p (set_content c) t) q =
     (if q = p then map_option (set_content c) (lstat t p) else lstat t q)"
  unfolding lstat_def
proof (induction p arbitrary: t q)
  case Nil
  then show ?case by (cases q) auto
next
  case (Cons n ns)
  show ?case
  proof (cases q)
    case Nil
    then show ?thesis by simp
  next
    case (Cons m ms)
    show ?thesis
    proof (cases "m = n")
      case False
      then show ?thesis using Cons by (simp add: map_of_modify_other)
    next
      case True
      show ?thesis
      proof (cases "map_of t n")
        case None
        then show ?thesis using Cons True by (simp add: map_of_modify_same)
      next
        case (Some nd)
        show ?thesis
        proof (cases "ns = []")
          case True
          then show ?thesis using Cons \<open>m = n\<close> Some
            by (cases "(c, nd)" rule: set_content.cases)
               (auto simp: map_of_modify_same option.map_comp shallow_set_content)
        next
          case False
          then show ?thesis using Cons \<open>m = n\<close> Some Cons.IH
            by (cases nd) (auto simp: map_of_modify_same)
        qed
      qed
    qed
  qed
qed

lemma readFile_modify:
  "readFile (modify p (set_content c) t) q =
     (if q = p then (case readFile t p of Inl e \<Rightarrow> Inl e | Inr old \<Rightarrow> Inr c)
      else readFile t q)"
proof (cases "q = p")
  case False
  then show ?thesis by (simp add: readFile_def lstat_modify)
next
  case True
  show ?thesis
  proof (cases "lstat t p")
    case None
    then show ?thesis using True by (simp add: readFile_def lstat_modify)
  next
    case (Some nd)
    then show ?thesis using True set_content_cases [of nd c]
      by (auto simp: readFile_def lstat_modify split: node.splits link.splits)
  qed
qed

lemma writeFile_ok:
  "readFile t p = Inr old \<Longrightarrow> writeFile t p c = (None, modify p (set_content c) t)"
  by (simp add: writeFile_def)

section \<open>The transformers' write policies\<close>

text \<open>C8: for a file whose lower-cased extension is \<^verbatim>\<open>.png\<close>, \<open>optimizeImage\<close> hands the
  image engine exactly one plugin, the PNG encoder with the quality range
  \<^verbatim>\<open>[Math.max(0.1, (q - 30) / 100), q / 100]\<close> in the arithmetic of JavaScript's numbers,
  whatever number the quality \<open>q\<close> is (\<^verbatim>\<open>NaN\<close> and the infinities included).\<close>

theorem png_quality_range:
  assumes "toLowerCase (extname (basename p)) = ''.png''" and "readFile t p = Inr input"
  shows "optimizeImage E p q t =
           (case imagemin_buffer E input
                   [Pngquant
                      (js_max (round_double (1 / 10)) (js_div (js_sub q (Num 30)) (Num 100)))
                      (js_div q (Num 100))] of
              Inl e \<Rightarrow> (Some e, t)
            | Inr out \<Rightarrow> if length out < length input then writeFile t p out else (None, t))"
  using assms by (simp add: optimizeImage_def plugins_for_def)

text \<open>At quality 80 the range is \<^verbatim>\<open>[0.5, 0.8]\<close>; at 40.1 its lower end is
  \<^verbatim>\<open>0.10100000000000002\<close>, one step above the double nearest to 0.101; at 20 it is the
  floor \<^verbatim>\<open>0.1\<close>; at \<^verbatim>\<open>NaN\<close> both ends are \<^verbatim>\<open>NaN\<close>.\<close>

theorem png_quality_range_witness:
  "toLowerCase (extname (basename [''OEBPS'', ''cover.PNG''])) = ''.png'' \<and>
   readFile sample_tree [''OEBPS'', ''cover.PNG''] = Inr ''png'' \<and>
   optimizeImage sample_engines [''OEBPS'', ''cover.PNG''] (Num 80) sample_tree =
     (case imagemin_buffer sample_engines ''png''
             [Pngquant (Num (1 / 2)) (Num (3602879701896397 / 4503599627370496))] of
        Inl e \<Rightarrow> (Some e, sample_tree)
      | Inr out \<Rightarrow>
          if length out < length ''png''
          then writeFile sample_tree [''OEBPS'', ''cover.PNG''] out
          else (None, sample_tree)) \<and>
   round_double (401 / 10) = Num (5643573283048653 / 140737488355328) \<and>
   round_double (101 / 1000) = Num (3638908498915361 / 36028797018963968) \<and>
   optimizeImage sample_engines [''OEBPS'', ''cover.PNG'']
       (Num (5643573283048653 / 140737488355328)) sample_tree =
     (case imagemin_buffer sample_engines ''png''
             [Pngquant (Num (7277816997830723 / 72057594037927936))
                (Num (1805943450575569 / 4503599627370496))] of
        Inl e \<Rightarrow> (Some e, sample_tree)
      | Inr out \<Rightarrow>
          if length out < length ''png''
          then writeFile sample_tree [''OEBPS'', ''cover.PNG''] out
          else (None, sample_tree)) \<and>
   optimizeImage sample_engines [''OEBPS'', ''cover.PNG''] (Num 20) sample_tree =
     (case imagemin_buffer sample_engines ''png''
             [Pngquant (Num (3602879701896397 / 36028797018963968))
                (Num (3602879701896397 / 18014398509481984))] of
        Inl e \<Rightarrow> (Some e, sample_tree)
      | Inr out \<Rightarrow>
          if length out < length ''png''
          then writeFile sample_tree [''OEBPS'', ''cover.PNG''] out
          else (None, sample_tree)) \<and>
   optimizeImage sample_engines [''OEBPS'', ''cover.PNG''] NaN sample_tree =
     (case imagemin_buffer sample_engines ''png'' [Pngquant NaN NaN] of
        Inl e \<Rightarrow> (Some e, sample_tree)
      | Inr out \<Rightarrow>
          if length out < length ''png''
          then writeFile sample_tree [''OEBPS'', ''cover.PNG''] out
          else (None, sample_tree))"
proof -
  have h1: "toLowerCase (extname (basename [''OEBPS'', ''cover.PNG''])) = ''.png''"
    by code_simp
  have h2: "readFile sample_tree [''OEBPS'', ''cover.PNG''] = Inr ''png''"
    by code_simp
  have lo80: "js_max (round_double (1 / 10)) (js_div (js_sub (Num 80) (Num 30)) (Num 100)) =
                Num (1 / 2)"
    by code_simp
  have hi80: "js_div (Num 80) (Num 100) = Num (3602879701896397 / 4503599627370496)"
    by code_simp
  have q401: "round_double (401 / 10) = Num (5643573283048653 / 140737488355328)"
    by code_simp
  have r101: "round_double (101 / 1000) = Num (3638908498915361 / 36028797018963968)"
    by code_simp
  have lo401: "js_max (round_double (1 / 10))
                 (js_div (js_sub (Num (5643573283048653 / 140737488355328)) (Num 30)) (Num 100)) =
               Num (7277816997830723 / 72057594037927936)"
    by code_simp
  have hi401: "js_div (Num (5643573283048653 / 140737488355328)) (Num 100) =
                 Num (1805943450575569 / 4503599627370496)"
    by code_simp
  have lo20: "js_max (round_double (1 / 10)) (js_div (js_sub (Num 20) (Num 30)) (Num 100)) =
                Num (3602879701896397 / 36028797018963968)"
    by code_simp
  have hi20: "js_div (Num 20) (Num 100) = Num (3602879701896397 / 18014398509481984)"
    by code_simp
  have loNaN: "js_max (round_double (1 / 10)) (js_div (js_sub NaN (Num 30)) (Num 100)) = NaN"
    by code_simp
  have hiNaN: "js_div NaN (Num 100) = NaN"
    by code_simp
  note at = png_quality_range [OF h1 h2, of sample_engines]
  show ?thesis
    using h1 h2 q401 r101
      at [of "Num 80", unfolded lo80 hi80]
      at [of "Num (5643573283048653 / 140737488355328)", unfolded lo401 hi401]
      at [of "Num 20", unfolded lo20 hi20]
      at [of NaN, unfolded loNaN hiNaN]
    by (intro conjI)
qed

text \<open>C10: the script minifier writes only when the engine returns a non-empty \<^verbatim>\<open>code\<close>:
  when the engine throws or reports an error, the error is raised and the tree is as it
  was; when it returns neither an error nor code (or an empty code), the tree is as it was;
  when it returns code, the file holds that code afterwards and no other file
  changes.\<close>

theorem minifyJsFile_write_policy:
  assumes "readFile t p = Inr src"
  shows "(\<forall>e. terser E src = Inl e \<longrightarrow> minifyJsFile E p t = (Some e, t)) \<and>
         (\<forall>r e. terser E src = Inr r \<longrightarrow> error r = Some e \<longrightarrow>
            minifyJsFile E p t = (Some e, t)) \<and>
         (\<forall>r. terser E src = Inr r \<longrightarrow> error r = None \<longrightarrow>
            code r = None \<or> code r = Some [] \<longrightarrow> minifyJsFile E p t = (None, t)) \<and>
         (\<forall>r c. terser E src = Inr r \<longrightarrow> error r = None \<longrightarrow> code r = Some c \<longrightarrow> c \<noteq> [] \<longrightarrow>
            fst (minifyJsFile E p t) = None \<and>
            readFile (snd (minifyJsFile E p t)) p = Inr c \<and>
            (\<forall>q. q \<noteq> p \<longrightarrow> readFile (snd (minifyJsFile E p t)) q = readFile t q))"
  using assms
  by (auto simp: minifyJsFile_def writeFile_ok readFile_modify)

text \<open>C5: after \<open>optimizeImage\<close> the file is never longer than before; it is replaced only
  by an output of the image engine that is strictly shorter, and otherwise the tree is as
  it was.\<close>

theorem optimizeImage_never_grows:
  assumes "readFile t p = Inr input"
  shows "\<exists>after. readFile (snd (optimizeImage E p q t)) p = Inr after \<and>
           length after \<le> length input \<and>
           (snd (optimizeImage E p q t) = t \<or>
            length after < length input \<and>
            (\<exists>plugins. imagemin_buffer E input plugins = Inr after))"
  using assms
  by (auto simp: optimizeImage_def Let_def writeFile_ok readFile_modify
           split: option.splits sum.splits)

theorem minifyJsFile_write_policy_witness:
  "readFile sample_tree [''OEBPS'', ''bad.js''] = Inr ''('' \<and>
   minifyJsFile sample_engines [''OEBPS'', ''bad.js''] sample_tree =
     (Some (Error ''Unexpected token''), sample_tree) \<and>
   readFile [(''old.js'', File ''{'')] [''old.js''] = Inr ''{'' \<and>
   minifyJsFile sample_engines [''old.js''] [(''old.js'', File ''{'')] =
     (Some (Error ''Unexpected token''), [(''old.js'', File ''{'')]) \<and>
   readFile [(''blank.js'', File ''  '')] [''blank.js''] = Inr ''  '' \<and>
   minifyJsFile sample_engines [''blank.js''] [(''blank.js'', File ''  '')] =
     (None, [(''blank.js'', File ''  '')]) \<and>
   readFile sample_tree [''OEBPS'', ''app.js''] = Inr '' f() '' \<and>
   fst (minifyJsFile sample_engines [''OEBPS'', ''app.js''] sample_tree) = None \<and>
   readFile (snd (minifyJsFile sample_engines [''OEBPS'', ''app.js''] sample_tree))
     [''OEBPS'', ''app.js''] = Inr ''f()'' \<and>
   readFile (snd (minifyJsFile sample_engines [''OEBPS'', ''app.js''] sample_tree))
     [''mimetype''] = readFile sample_tree [''mimetype'']"
proof -
  have r1: "readFile sample_tree [''OEBPS'', ''bad.js''] = Inr ''(''"
    by code_simp
  have e1: "terser sample_engines ''('' = Inl (Error ''Unexpected token'')"
    by (simp add: sample_engines_def)
  have c1: "minifyJsFile sample_engines [''OEBPS'', ''bad.js''] sample_tree =
              (Some (Error ''Unexpected token''), sample_tree)"
    using minifyJsFile_write_policy [OF r1, of sample_engines] e1 by blast
  have r2: "readFile [(''old.js'', File ''{'')] [''old.js''] = Inr ''{''"
    by code_simp
  have e2: "terser sample_engines ''{'' =
              Inr \<lparr>error = Some (Error ''Unexpected token''), code = None\<rparr>"
    by (simp add: sample_engines_def)
  have c2: "minifyJsFile sample_engines [''old.js''] [(''old.js'', File ''{'')] =
              (Some (Error ''Unexpected token''), [(''old.js'', File ''{'')])"
    using minifyJsFile_write_policy [OF r2, of sample_engines] e2 by simp
  have r3: "readFile [(''blank.js'', File ''  '')] [''blank.js''] = Inr ''  ''"
    by code_simp
  have e3: "terser sample_engines ''  '' = Inr \<lparr>error = None, code = Some []\<rparr>"
    by code_simp
  have c3: "minifyJsFile sample_engines [''blank.js''] [(''blank.js'', File ''  '')] =
              (None, [(''blank.js'', File ''  '')])"
    using minifyJsFile_write_policy [OF r3, of sample_engines] e3 by simp
  have r4: "readFile sample_tree [''OEBPS'', ''app.js''] = Inr '' f() ''"
    by code_simp
  have e4: "terser sample_engines '' f() '' = Inr \<lparr>error = None, code = Some ''f()''\<rparr>"
    by code_simp
  have c4: "fst (minifyJsFile sample_engines [''OEBPS'', ''app.js''] sample_tree) = None \<and>
            readFile (snd (minifyJsFile sample_engines [''OEBPS'', ''app.js''] sample_tree))
              [''OEBPS'', ''app.js''] = Inr ''f()'' \<and>
            readFile (snd (minifyJsFile sample_engines [''OEBPS'', ''app.js''] sample_tree))
              [''mimetype''] = readFile sample_tree [''mimetype'']"
    using minifyJsFile_write_policy [OF r4, of sample_engines] e4 by simp
  show ?thesis
    using r1 c1 r2 c2 r3 c3 r4 c4 by blast
qed

theorem optimizeImage_never_grows_witness:
  "readFile sample_tree [''OEBPS'', ''cover.PNG''] = Inr ''png'' \<and>
   (\<exists>after.
      readFile (snd (optimizeImage sample_engines [''OEBPS'', ''cover.PNG''] (Num 80) sample_tree))
        [''OEBPS'', ''cover.PNG''] = Inr after \<and>
      length after \<le> length ''png'' \<and>
      (snd (optimizeImage sample_engines [''OEBPS'', ''cover.PNG''] (Num 80) sample_tree) =
         sample_tree \<or>
       length after < length ''png'' \<and>
       (\<exists>plugins. imagemin_buffer sample_engines ''png'' plugins = Inr after)))"
proof -
  have h: "readFile sample_tree [''OEBPS'', ''cover.PNG''] = Inr ''png''"
    by code_simp
  show ?thesis
    using h optimizeImage_never_grows [OF h, of sample_engines "Num 80"] by blast
qed

text \<open>C7: the chain of tests in \<open>processFiles\<close> is the table of the specification, taken
  on the lower-cased extension and the image flag alone; the body of the loop makes the
  call the table names, and a file the table skips (any other extension, and an image
  when image optimization is off) leaves the tree as it was and is reported as skipped.\<close>

theorem classify_table:
  "classify imgs ext = spec_action imgs ext \<and>
   transform E opts p t =
     (case spec_action (images opts) (toLowerCase (extname (basename p))) of
        MinifyHtml \<Rightarrow> minifyHtmlFile E p t
      | MinifyCss \<Rightarrow> minifyCssFile E p t
      | MinifyJs \<Rightarrow> minifyJsFile E p t
      | OptimizeImage \<Rightarrow> optimizeImage E p (quality opts) t
      | MinifySvg \<Rightarrow> minifySvg p t
      | Skip \<Rightarrow> (None, t)) \<and>
   (spec_action (images opts) (toLowerCase (extname (basename p))) = Skip \<longrightarrow>
      process_one E opts p (t, lg) = (t, lg @ [Skipping (relative p)]))"
proof -
  have eq: "\<And>i x. classify i x = spec_action i x"
    by (auto simp: classify_def spec_action_def)
  show ?thesis
    by (simp add: eq transform_def process_one_def Let_def)
qed

theorem classify_table_witness:
  "spec_action False (toLowerCase (extname (basename [''OEBPS'', ''cover.PNG'']))) = Skip \<and>
   process_one sample_engines \<lparr>images = False, quality = Num 80\<rparr> [''OEBPS'', ''cover.PNG'']
     (sample_tree, []) = (sample_tree, [Skipping ''OEBPS/cover.PNG'']) \<and>
   classify True (toLowerCase (extname (basename [''OEBPS'', ''cover.PNG'']))) = OptimizeImage"
proof -
  have h: "spec_action False (toLowerCase (extname (basename [''OEBPS'', ''cover.PNG''])))
             = Skip"
    by code_simp
  have g: "spec_action True (toLowerCase (extname (basename [''OEBPS'', ''cover.PNG''])))
             = OptimizeImage"
    by code_simp
  have r: "relative [''OEBPS'', ''cover.PNG''] = ''OEBPS/cover.PNG''"
    by simp
  show ?thesis
    using h g r
      classify_table [of False _ sample_engines "\<lparr>images = False, quality = Num 80\<rparr>"
        "[''OEBPS'', ''cover.PNG'']" sample_tree "[]"]
      classify_table [of True "toLowerCase (extname (basename [''OEBPS'', ''cover.PNG'']))"]
    by simp
qed

section \<open>processFiles: one file at a time\<close>

lemma transform_fails_unchanged:
  "fst (transform E opts p t) = Some e \<Longrightarrow> snd (transform E opts p t) = t"
  by (auto simp: transform_def minifyHtmlFile_def minifyCssFile_def minifyJsFile_def
        optimizeImage_def minifySvg_def writeFile_def Let_def
      split: action.splits sum.splits option.splits if_splits)

lemma transform_shape:
  "snd (transform E opts p t) = t \<or>
   (fst (transform E opts p t) = None \<and>
    (\<exists>c. snd (transform E opts p t) = modify p (set_content c) t))"
  by (auto simp: transform_def minifyHtmlFile_def minifyCssFile_def minifyJsFile_def
        optimizeImage_def minifySvg_def writeFile_def Let_def
      split: action.splits sum.splits option.splits if_splits)

lemma transform_local:
  assumes "readFile t1 p = readFile t2 p"
  shows "fst (transform E opts p t1) = fst (transform E opts p t2) \<and>
         readFile (snd (transform E opts p t1)) p = readFile (snd (transform E opts p t2)) p"
  using assms
  by (auto simp: transform_def minifyHtmlFile_def minifyCssFile_def minifyJsFile_def
        optimizeImage_def minifySvg_def writeFile_def Let_def readFile_modify
      split: action.splits sum.splits option.splits if_splits)

lemma transform_frame:
  "q \<noteq> p \<Longrightarrow> readFile (snd (transform E opts q t)) p = readFile t p"
  using transform_shape [of E opts q t] by (auto simp: readFile_modify)

lemma fst_process_one:
  "fst (process_one E opts p st) = snd (transform E opts p (fst st))"
  by (simp add: process_one_def Let_def split: prod.splits option.splits)

lemma process_loop_frame:
  "p \<notin> set ps \<Longrightarrow> readFile (fst (process_loop E opts ps st)) p = readFile (fst st) p"
proof (induction ps arbitrary: st)
  case Nil
  then show ?case by simp
next
  case (Cons q qs)
  then have "q \<noteq> p" and "p \<notin> set qs" by auto
  then show ?case
    using Cons.IH [of "process_one E opts q st"]
    by (simp add: fst_process_one transform_frame)
qed

lemma process_loop_pointwise:
  "distinct ps \<Longrightarrow> p \<in> set ps \<Longrightarrow>
     readFile (fst (process_loop E opts ps st)) p =
       readFile (snd (transform E opts p (fst st))) p"
proof (induction ps arbitrary: st)
  case Nil
  then show ?case by simp
next
  case (Cons q qs)
  show ?case
  proof (cases "q = p")
    case True
    then have "p \<notin> set qs" using Cons.prems by simp
    then show ?thesis
      using True by (simp add: process_loop_frame fst_process_one)
  next
    case False
    then have in_qs: "p \<in> set qs" and dist: "distinct qs" using Cons.prems by auto
    have same: "readFile (fst (process_one E opts q st)) p = readFile (fst st) p"
      using False by (simp add: fst_process_one transform_frame)
    have "readFile (fst (process_loop E opts qs (process_one E opts q st))) p =
            readFile (snd (transform E opts p (fst (process_one E opts q st)))) p"
      using Cons.IH [OF dist in_qs] .
    also have "\<dots> = readFile (snd (transform E opts p (fst st))) p"
      using transform_local [OF same] by simp
    finally show ?thesis by simp
  qed
qed

lemma log_grows_one: "set (snd st) \<subseteq> set (snd (process_one E opts p st))"
  by (auto simp: process_one_def Let_def split: prod.splits option.splits)

lemma log_grows: "set (snd st) \<subseteq> set (snd (process_loop E opts ps st))"
proof (induction ps arbitrary: st)
  case Nil
  then show ?case by simp
next
  case (Cons q qs)
  show ?case
    using log_grows_one [of st E opts q] Cons.IH [of "process_one E opts q st"]
    by auto
qed

lemma process_one_logs_failure:
  "fst (transform E opts p (fst st)) = Some e \<Longrightarrow>
     Failed (relative p) e \<in> set (snd (process_one E opts p st))"
  by (auto simp: process_one_def Let_def split: prod.splits option.splits)

lemma process_loop_logs_failure:
  "distinct ps \<Longrightarrow> p \<in> set ps \<Longrightarrow> fst (transform E opts p (fst st)) = Some e \<Longrightarrow>
     Failed (relative p) e \<in> set (snd (process_loop E opts ps st))"
proof (induction ps arbitrary: st)
  case Nil
  then show ?case by simp
next
  case (Cons q qs)
  show ?case
  proof (cases "q = p")
    case True
    then show ?thesis
      using process_one_logs_failure [OF Cons.prems(3)]
            log_grows [of "process_one E opts p st" E opts qs]
      by auto
  next
    case False
    then have in_qs: "p \<in> set qs" and dist: "distinct qs" using Cons.prems by auto
    have same: "readFile (fst (process_one E opts q st)) p = readFile (fst st) p"
      using False by (simp add: fst_process_one transform_frame)
    have "fst (transform E opts p (fst (process_one E opts q st))) = Some e"
      using transform_local [OF same] Cons.prems(3) by simp
    then show ?thesis
      using Cons.IH [OF dist in_qs] by simp
  qed
qed

lemma walk_dir_prefix:
  "q \<in> set (walk_dir pre t) \<Longrightarrow> \<exists>n rest. q = pre @ n # rest \<and> n \<in> fst ` set t"
proof (induction pre t rule: walk_dir.induct)
  case (2 p name sub es)
  from "2.prems" consider "q \<in> set (walk_dir (p @ [name]) sub)" | "q \<in> set (walk_dir p es)"
    by auto
  then show ?case
  proof cases
    case 1
    then obtain n rest where "q = (p @ [name]) @ n # rest"
      using "2.IH"(1) by blast
    then show ?thesis by auto
  next
    case 2
    then show ?thesis using "2.IH"(2) by auto
  qed
qed auto

lemma distinct_walk_dir: "wf_tree t \<Longrightarrow> distinct (walk_dir pre t)"
proof (induction pre t rule: walk_dir.induct)
  case (2 p name sub es)
  have d1: "distinct (walk_dir (p @ [name]) sub)" and d2: "distinct (walk_dir p es)"
    using 2 by auto
  have "set (walk_dir (p @ [name]) sub) \<inter> set (walk_dir p es) = {}"
  proof (rule ccontr)
    assume "set (walk_dir (p @ [name]) sub) \<inter> set (walk_dir p es) \<noteq> {}"
    then obtain q where q1: "q \<in> set (walk_dir (p @ [name]) sub)"
      and q2: "q \<in> set (walk_dir p es)" by auto
    from walk_dir_prefix [OF q1] obtain n rest where a: "q = (p @ [name]) @ n # rest"
      by blast
    from walk_dir_prefix [OF q2] obtain m rest' where b: "q = p @ m # rest'"
      and m: "m \<in> fst ` set es" by blast
    from a b have "m = name" by simp
    then show False using m "2.prems" by simp
  qed
  then show ?case using d1 d2 by simp
next
  case (3 p name c es)
  have "p @ [name] \<notin> set (walk_dir p es)"
  proof
    assume "p @ [name] \<in> set (walk_dir p es)"
    from walk_dir_prefix [OF this] obtain m rest where "p @ [name] = p @ m # rest"
      and "m \<in> fst ` set es" by blast
    then show False using "3.prems" by simp
  qed
  then show ?case using 3 by simp
next
  case (4 p name l es)
  have "p @ [name] \<notin> set (walk_dir p es)"
  proof
    assume "p @ [name] \<in> set (walk_dir p es)"
    from walk_dir_prefix [OF this] obtain m rest where "p @ [name] = p @ m # rest"
      and "m \<in> fst ` set es" by blast
    then show False using "4.prems" by simp
  qed
  then show ?case using 4 by simp
qed auto

text \<open>C4: in a well-formed tree, every file \<open>processFiles\<close> visits ends as its own
  transformer, run on the tree as extracted, leaves it, whatever happens to the other
  files; when that transformer raises an error, the file keeps its content, the failure is
  in the log of warnings, and the loop has gone on over all the other files.\<close>

theorem processFiles_isolates_failures:
  assumes "wf_tree t" and "p \<in> set (walk t)"
  shows "readFile (fst (processFiles E opts t)) p = readFile (snd (transform E opts p t)) p \<and>
         (\<forall>e. fst (transform E opts p t) = Some e \<longrightarrow>
            readFile (fst (processFiles E opts t)) p = readFile t p \<and>
            Failed (relative p) e \<in> set (snd (processFiles E opts t)))"
proof -
  have dist: "distinct (walk t)"
    using assms(1) by (simp add: walk_def distinct_walk_dir)
  have pw: "readFile (fst (processFiles E opts t)) p =
              readFile (snd (transform E opts p t)) p"
    using process_loop_pointwise [OF dist assms(2), of E opts "(t, [])"]
    by (simp add: processFiles_def)
  have "readFile (fst (processFiles E opts t)) p = readFile t p \<and>
        Failed (relative p) e \<in> set (snd (processFiles E opts t))"
    if "fst (transform E opts p t) = Some e" for e
    using that pw transform_fails_unchanged [OF that]
      process_loop_logs_failure [OF dist assms(2), of E opts "(t, [])" e]
    by (simp add: processFiles_def)
  then show ?thesis using pw by blast
qed

theorem processFiles_isolates_failures_witness:
  "wf_tree sample_tree \<and>
   [''OEBPS'', ''bad.js''] \<in> set (walk sample_tree) \<and>
   fst (transform sample_engines \<lparr>images = True, quality = Num 80\<rparr> [''OEBPS'', ''bad.js'']
          sample_tree) = Some (Error ''Unexpected token'') \<and>
   readFile (fst (processFiles sample_engines \<lparr>images = True, quality = Num 80\<rparr> sample_tree))
     [''OEBPS'', ''bad.js''] = Inr ''('' \<and>
   Failed ''OEBPS/bad.js'' (Error ''Unexpected token'')
     \<in> set (snd (processFiles sample_engines \<lparr>images = True, quality = Num 80\<rparr> sample_tree)) \<and>
   [''OEBPS'', ''style.css''] \<in> set (walk sample_tree) \<and>
   readFile (fst (processFiles sample_engines \<lparr>images = True, quality = Num 80\<rparr> sample_tree))
     [''OEBPS'', ''style.css''] = Inr ''body{}''"
proof -
  have wf: "wf_tree sample_tree"
    by code_simp
  have m1: "[''OEBPS'', ''bad.js''] \<in> set (walk sample_tree)"
    by code_simp
  have f1: "fst (transform sample_engines \<lparr>images = True, quality = Num 80\<rparr>
                   [''OEBPS'', ''bad.js''] sample_tree) = Some (Error ''Unexpected token'')"
    by code_simp
  have r1: "readFile sample_tree [''OEBPS'', ''bad.js''] = Inr ''(''"
    by code_simp
  have n1: "relative [''OEBPS'', ''bad.js''] = ''OEBPS/bad.js''"
    by simp
  have c1: "readFile (fst (processFiles sample_engines \<lparr>images = True, quality = Num 80\<rparr>
                             sample_tree)) [''OEBPS'', ''bad.js''] = Inr ''('' \<and>
            Failed ''OEBPS/bad.js'' (Error ''Unexpected token'')
              \<in> set (snd (processFiles sample_engines \<lparr>images = True, quality = Num 80\<rparr>
                             sample_tree))"
    using processFiles_isolates_failures [OF wf m1, of sample_engines
            "\<lparr>images = True, quality = Num 80\<rparr>"] f1 r1 n1
    by metis
  have m2: "[''OEBPS'', ''style.css''] \<in> set (walk sample_tree)"
    by code_simp
  have t2: "readFile (snd (transform sample_engines \<lparr>images = True, quality = Num 80\<rparr>
                             [''OEBPS'', ''style.css''] sample_tree))
              [''OEBPS'', ''style.css''] = Inr ''body{}''"
    by code_simp
  have c2: "readFile (fst (processFiles sample_engines \<lparr>images = True, quality = Num 80\<rparr>
                             sample_tree)) [''OEBPS'', ''style.css''] = Inr ''body{}''"
    using processFiles_isolates_failures [OF wf m2, of sample_engines
            "\<lparr>images = True, quality = Num 80\<rparr>"] t2
    by simp
  show ?thesis
    using wf m1 f1 c1 m2 c2 by blast
qed

section \<open>createEpub and run\<close>

lemma extname_mimetype: "toLowerCase (extname (basename [''mimetype''])) = []"
  by code_simp

lemma transform_mimetype: "transform E opts [''mimetype''] t = (None, t)"
  by (simp add: transform_def extname_mimetype classify_def)

lemma transform_keeps_mimetype:
  "lstat (snd (transform E opts q t)) [''mimetype''] = lstat t [''mimetype'']"
proof (cases "q = [''mimetype'']")
  case True
  then show ?thesis by (simp add: transform_mimetype)
next
  case False
  then show ?thesis
    using transform_shape [of E opts q t] by (auto simp: lstat_modify)
qed

lemma process_loop_keeps_mimetype:
  "lstat (fst (process_loop E opts ps st)) [''mimetype''] = lstat (fst st) [''mimetype'']"
  by (induction ps arbitrary: st) (simp_all add: fst_process_one transform_keeps_mimetype)

lemma processFiles_keeps_mimetype:
  "lstat (fst (processFiles E opts t)) [''mimetype''] = lstat t [''mimetype'']"
  by (simp add: processFiles_def process_loop_keeps_mimetype)

lemma add_files_appends:
  "\<exists>more. entries (snd (add_files t files a)) = entries a @ more \<and>
          zlib_level (snd (add_files t files a)) = zlib_level a \<and>
          finalized (snd (add_files t files a)) = finalized a"
proof (induction files arbitrary: a)
  case Nil
  then show ?case by simp
next
  case (Cons f fs)
  show ?case
  proof (cases "relative f = ''mimetype''")
    case True
    then show ?thesis using Cons.IH [of a] by simp
  next
    case False
    show ?thesis
    proof (cases "stat_isFile t f")
      case (Inl e)
      then show ?thesis using False by simp
    next
      case (Inr isf)
      show ?thesis
        using False Inr
          Cons.IH [of "if isf then a\<lparr>entries := entries a @
                         [\<lparr>name = relative f, source = FromFile f, store = False\<rparr>]\<rparr> else a"]
        by (cases isf) auto
    qed
  qed
qed






text \<open>C6 asks that the temporary directory be removed on every exit path. The program
  removes it in step 4 of \<open>run\<close>, which only a job without a fatal failure reaches: a job
  on an archive without \<^verbatim>\<open>mimetype\<close>, and a job whose extraction fails, end with status
  1 and the temporary directory still in place.\<close>

theorem tmp_left_after_fatal_failure:
  "fst (run sample_engines bare_unzip ''/tmp/epub-compress-00'' sample_args sample_world) = 1 \<and>
   tmp (snd (run sample_engines bare_unzip ''/tmp/epub-compress-00'' sample_args sample_world))
     = Some [(''content.opf'', File ''<package> </package>'')] \<and>
   fst (run sample_engines failing_unzip ''/tmp/epub-compress-00'' sample_args sample_world)
     = 1 \<and>
   tmp (snd (run sample_engines failing_unzip ''/tmp/epub-compress-00'' sample_args
          sample_world)) = Some []"
  by code_simp

section \<open>The order of the archive\<close>

lemma full_relative: "p \<noteq> [] \<Longrightarrow> full dir p = dir @ CHR ''/'' # relative p"
proof (induction p rule: relative.induct)
  case 1
  then show ?case by simp
next
  case (2 s)
  then show ?case by (simp add: full_def)
next
  case (3 s v va)
  then show ?case by (simp add: full_def)
qed

lemma append_le_cancel: "(xs @ a \<le> xs @ b) = (a \<le> (b :: string))"
  by (induction xs) auto

lemma walk_dir_nonempty: "q \<in> set (walk_dir pre t) \<Longrightarrow> q \<noteq> []"
  using walk_dir_prefix [of q pre t] by auto

lemma sorted_relative_of_full:
  assumes "sorted (map (full dir) ps)" and "\<forall>q \<in> set ps. q \<noteq> []"
  shows "sorted (map relative ps)"
  using assms
proof (induction ps)
  case Nil
  then show ?case by simp
next
  case (Cons p ps)
  have "relative p \<le> relative q" if "q \<in> set ps" for q
  proof -
    have "full dir p \<le> full dir q" using Cons.prems(1) that by simp
    moreover have "p \<noteq> []" "q \<noteq> []" using Cons.prems(2) that by auto
    ultimately have "dir @ CHR ''/'' # relative p \<le> dir @ CHR ''/'' # relative q"
      by (simp add: full_relative)
    then show ?thesis by (simp add: append_le_cancel)
  qed
  then show ?case using Cons by simp
qed

lemma add_files_skip:
  "relative f = ''mimetype'' \<Longrightarrow> add_files t (f # fs) a = add_files t fs a"
  by simp

lemma add_files_throw:
  "relative f \<noteq> ''mimetype'' \<Longrightarrow> stat_isFile t f = Inl e \<Longrightarrow>
     add_files t (f # fs) a = (Some e, a)"
  by simp

lemma add_files_file:
  "relative f \<noteq> ''mimetype'' \<Longrightarrow> stat_isFile t f = Inr True \<Longrightarrow>
     add_files t (f # fs) a =
       add_files t fs
         (a\<lparr>entries := entries a @
              [\<lparr>name = relative f, source = FromFile f, store = False\<rparr>]\<rparr>)"
  by simp

lemma add_files_other:
  "relative f \<noteq> ''mimetype'' \<Longrightarrow> stat_isFile t f = Inr False \<Longrightarrow>
     add_files t (f # fs) a = add_files t fs a"
  by simp

lemma add_files_entries:
  "entries (snd (add_files t files a)) =
     entries a @
     map (\<lambda>q. \<lparr>name = relative q, source = FromFile q, store = False\<rparr>)
       (filter (\<lambda>q. relative q \<noteq> ''mimetype'' \<and> stat_isFile t q = Inr True)
          (takeWhile (\<lambda>q. relative q = ''mimetype'' \<or> \<not> isl (stat_isFile t q)) files))"
proof (induction files arbitrary: a)
  case Nil
  then show ?case by simp
next
  case (Cons f fs)
  consider (mime) "relative f = ''mimetype''"
    | (thrown) e where "relative f \<noteq> ''mimetype''" "stat_isFile t f = Inl e"
    | (regular) "relative f \<noteq> ''mimetype''" "stat_isFile t f = Inr True"
    | (nonfile) "relative f \<noteq> ''mimetype''" "stat_isFile t f = Inr False"
    by (cases "stat_isFile t f") auto
  then show ?case
  proof cases
    case mime
    show ?thesis
      unfolding add_files_skip [OF mime] Cons.IH using mime by simp
  next
    case thrown
    show ?thesis
      unfolding add_files_throw [OF thrown] using thrown by simp
  next
    case regular
    show ?thesis
      unfolding add_files_file [OF regular] Cons.IH using regular by simp
  next
    case nonfile
    show ?thesis
      unfolding add_files_other [OF nonfile] Cons.IH using nonfile by simp
  qed
qed

lemma add_files_ok:
  "(fst (add_files t files a) = None) =
     (\<forall>q \<in> set files. relative q = ''mimetype'' \<or> \<not> isl (stat_isFile t q))"
proof (induction files arbitrary: a)
  case Nil
  then show ?case by simp
next
  case (Cons f fs)
  consider (mime) "relative f = ''mimetype''"
    | (thrown) e where "relative f \<noteq> ''mimetype''" "stat_isFile t f = Inl e"
    | (regular) "relative f \<noteq> ''mimetype''" "stat_isFile t f = Inr True"
    | (nonfile) "relative f \<noteq> ''mimetype''" "stat_isFile t f = Inr False"
    by (cases "stat_isFile t f") auto
  then show ?case
  proof cases
    case mime
    show ?thesis
      unfolding add_files_skip [OF mime] Cons.IH using mime by simp
  next
    case thrown
    show ?thesis
      unfolding add_files_throw [OF thrown] using thrown by simp
  next
    case regular
    show ?thesis
      unfolding add_files_file [OF regular] Cons.IH using regular by simp
  next
    case nonfile
    show ?thesis
      unfolding add_files_other [OF nonfile] Cons.IH using nonfile by simp
  qed
qed

lemma sorted_map_takeWhile:
  "sorted (map f xs) \<Longrightarrow> sorted (map f (takeWhile P xs))"
proof -
  assume "sorted (map f xs)"
  then have "sorted (take (length (takeWhile P xs)) (map f xs))"
    by (rule sorted_wrt_take)
  then show ?thesis
    by (simp add: take_map takeWhile_eq_take [symmetric])
qed

lemma sorted_walk_relative: "sorted (map relative (sort_key (full dir) (walk t)))"
proof (rule sorted_relative_of_full)
  show "sorted (map (full dir) (sort_key (full dir) (walk t)))"
    by (rule sorted_sort_key)
  show "\<forall>q \<in> set (sort_key (full dir) (walk t)). q \<noteq> []"
    by (auto simp: walk_def dest: walk_dir_nonempty)
qed

lemma added_sorted:
  "sorted (map name
     (map (\<lambda>q. \<lparr>name = relative q, source = FromFile q, store = False\<rparr>)
        (filter P (takeWhile Q (sort_key (full dir) (walk t))))))"
proof -
  have "sorted (map relative (filter P (takeWhile Q (sort_key (full dir) (walk t)))))"
    by (intro sorted_filter sorted_map_takeWhile sorted_walk_relative)
  then show ?thesis by (simp add: comp_def)
qed

lemma createEpub_opened:
  assumes "existsSync t [''mimetype'']" and "readFile t [''mimetype''] = Inr c"
  shows "\<exists>a. snd (createEpub dir level t out) = Some a \<and> zlib_level a = level \<and>
           entries a =
             \<lparr>name = ''mimetype'', source = Stream c, store = True\<rparr> #
             map (\<lambda>q. \<lparr>name = relative q, source = FromFile q, store = False\<rparr>)
               (filter (\<lambda>q. relative q \<noteq> ''mimetype'' \<and> stat_isFile t q = Inr True)
                  (takeWhile (\<lambda>q. relative q = ''mimetype'' \<or> \<not> isl (stat_isFile t q))
                     (sort_key (full dir) (walk t)))) \<and>
           (fst (createEpub dir level t out) = None) =
             (\<forall>q \<in> set (walk t). relative q = ''mimetype'' \<or> \<not> isl (stat_isFile t q))"
proof -
  let ?a1 = "\<lparr>zlib_level = level,
              entries = [\<lparr>name = ''mimetype'', source = Stream c, store = True\<rparr>],
              finalized = False\<rparr>"
  let ?r = "add_files t (sort_key (full dir) (walk t)) ?a1"
  have ce: "createEpub dir level t out =
              (case ?r of (Some e, a) \<Rightarrow> (Some e, Some a)
                        | (None, a) \<Rightarrow> (None, Some (a\<lparr>finalized := True\<rparr>)))"
    using assms by (simp add: createEpub_def Let_def)
  have lev: "zlib_level (snd ?r) = level"
    using add_files_appends [of t "sort_key (full dir) (walk t)" ?a1] by auto
  have ent: "entries (snd ?r) =
               \<lparr>name = ''mimetype'', source = Stream c, store = True\<rparr> #
               map (\<lambda>q. \<lparr>name = relative q, source = FromFile q, store = False\<rparr>)
                 (filter (\<lambda>q. relative q \<noteq> ''mimetype'' \<and> stat_isFile t q = Inr True)
                    (takeWhile (\<lambda>q. relative q = ''mimetype'' \<or> \<not> isl (stat_isFile t q))
                       (sort_key (full dir) (walk t))))"
    by (simp add: add_files_entries)
  have ok: "(fst ?r = None) =
              (\<forall>q \<in> set (walk t). relative q = ''mimetype'' \<or> \<not> isl (stat_isFile t q))"
    by (simp add: add_files_ok)
  obtain r a where ra: "?r = (r, a)" by (cases ?r)
  show ?thesis
  proof (cases r)
    case None
    then show ?thesis using ce ra lev ent ok by simp
  next
    case (Some e)
    then show ?thesis using ce ra lev ent ok by simp
  qed
qed

lemma written_first:
  assumes "entries a =
             \<lparr>name = n, source = Stream c, store = st\<rparr> #
             map (\<lambda>q. \<lparr>name = relative q, source = FromFile q, store = False\<rparr>) qs"
  shows "written sched a =
           \<lparr>name = n, source = Stream c, store = st\<rparr> #
           stat_queue sched []
             (map (\<lambda>q. \<lparr>name = relative q, source = FromFile q, store = False\<rparr>) qs)"
proof -
  have no: "filter (\<lambda>e. is_stream (source e))
              (map (\<lambda>q. \<lparr>name = relative q, source = FromFile q, store = False\<rparr>) qs) = []"
    by (induction qs) simp_all
  have all: "filter (\<lambda>e. \<not> is_stream (source e))
               (map (\<lambda>q. \<lparr>name = relative q, source = FromFile q, store = False\<rparr>) qs) =
             map (\<lambda>q. \<lparr>name = relative q, source = FromFile q, store = False\<rparr>) qs"
    by (induction qs) simp_all
  show ?thesis
    unfolding written_def assms by (simp add: no all)
qed

text \<open>C1: when the extracted tree has a regular file \<^verbatim>\<open>mimetype\<close> at its root, the job
  leaves that file as it is while processing, and the archive at the output path starts
  with an entry named \<^verbatim>\<open>mimetype\<close>, stored without compression whatever the level, that
  holds the bytes of that file: it is the first call on the archiver, and the first entry
  written whatever the order in which the archiver's \<^verbatim>\<open>lstat\<close> calls return.\<close>

theorem mimetype_first_stored:
  assumes "unzip inPath = (t, None)"
    and "lstat t [''mimetype''] = Some (File c)"
    and "positional args = inPath # outPath # others"
    and "inPath \<noteq> []" and "outPath \<noteq> []"
  shows "lstat (fst (processFiles E \<lparr>images = arg_images args, quality = arg_quality args\<rparr> t))
           [''mimetype''] = Some (File c) \<and>
         (\<exists>a more. out_file (snd (run E unzip dir args w)) = Some a \<and>
            entries a = \<lparr>name = ''mimetype'', source = Stream c, store = True\<rparr> # more \<and>
            (\<forall>sched. \<exists>rest.
               written sched a =
                 \<lparr>name = ''mimetype'', source = Stream c, store = True\<rparr> # rest))"
proof -
  let ?t' = "fst (processFiles E \<lparr>images = arg_images args, quality = arg_quality args\<rparr> t)"
  define mk where "mk = (\<lambda>q. \<lparr>name = relative q, source = FromFile q, store = False\<rparr>)"
  have kept: "lstat ?t' [''mimetype''] = Some (File c)"
    using assms(2) by (simp add: processFiles_keeps_mimetype)
  have ex: "existsSync ?t' [''mimetype'']" and rd: "readFile ?t' [''mimetype''] = Inr c"
    using kept by (simp_all add: existsSync_def readFile_def)
  have "\<exists>a qs. snd (createEpub dir (arg_level args) ?t' (out_file w)) = Some a \<and>
          entries a = \<lparr>name = ''mimetype'', source = Stream c, store = True\<rparr> # map mk qs"
    using createEpub_opened [OF ex rd, of dir "arg_level args" "out_file w"]
    unfolding mk_def by (elim exE conjE) (intro exI conjI)
  then obtain a qs where a: "snd (createEpub dir (arg_level args) ?t' (out_file w)) = Some a"
    and e: "entries a = \<lparr>name = ''mimetype'', source = Stream c, store = True\<rparr> # map mk qs"
    by (elim exE conjE)
  have out: "out_file (snd (run E unzip dir args w)) = Some a"
    using assms(1,3,4,5) a
    by (auto simp: run_def Let_def removeDir_def split: prod.splits option.splits)
  have wr: "written sched a =
              \<lparr>name = ''mimetype'', source = Stream c, store = True\<rparr> #
              stat_queue sched [] (map mk qs)" for sched
    using e unfolding mk_def by (rule written_first)
  have "out_file (snd (run E unzip dir args w)) = Some a \<and>
        entries a = \<lparr>name = ''mimetype'', source = Stream c, store = True\<rparr> # map mk qs \<and>
        (\<forall>sched. \<exists>rest.
           written sched a =
             \<lparr>name = ''mimetype'', source = Stream c, store = True\<rparr> # rest)"
  proof (intro conjI allI)
    show "out_file (snd (run E unzip dir args w)) = Some a" by (rule out)
    show "entries a = \<lparr>name = ''mimetype'', source = Stream c, store = True\<rparr> # map mk qs"
      by (rule e)
    show "\<exists>rest. written sched a =
            \<lparr>name = ''mimetype'', source = Stream c, store = True\<rparr> # rest" for sched
      by (rule exI) (rule wr)
  qed
  then have "\<exists>a more. out_file (snd (run E unzip dir args w)) = Some a \<and>
        entries a = \<lparr>name = ''mimetype'', source = Stream c, store = True\<rparr> # more \<and>
        (\<forall>sched. \<exists>rest.
           written sched a =
             \<lparr>name = ''mimetype'', source = Stream c, store = True\<rparr> # rest)"
    by (rule exI [of _ "map mk qs", THEN exI [of _ a]])
  with kept show ?thesis by (rule conjI)
qed

theorem mimetype_first_stored_witness:
  "sample_unzip ''in.epub'' = (sample_tree, None) \<and>
   lstat sample_tree [''mimetype''] = Some (File ''application/epub+zip'') \<and>
   positional sample_args = [''in.epub'', ''out.epub''] \<and>
   lstat (fst (processFiles sample_engines
                 \<lparr>images = arg_images sample_args, quality = arg_quality sample_args\<rparr>
                 sample_tree)) [''mimetype''] = Some (File ''application/epub+zip'') \<and>
   (\<exists>a more.
      out_file (snd (run sample_engines sample_unzip ''/tmp/epub-compress-00'' sample_args
                  sample_world)) = Some a \<and>
      entries a =
        \<lparr>name = ''mimetype'', source = Stream ''application/epub+zip'', store = True\<rparr> # more \<and>
      (\<forall>sched. \<exists>rest.
         written sched a =
           \<lparr>name = ''mimetype'', source = Stream ''application/epub+zip'', store = True\<rparr> #
           rest))"
proof -
  have h1: "sample_unzip ''in.epub'' = (sample_tree, None)"
    by (simp add: sample_unzip_def)
  have h2: "lstat sample_tree [''mimetype''] = Some (File ''application/epub+zip'')"
    by code_simp
  have h3: "positional sample_args = ''in.epub'' # ''out.epub'' # []"
    by (simp add: sample_args_def)
  have h4: "''in.epub'' \<noteq> []" and h5: "''out.epub'' \<noteq> []"
    by simp_all
  show ?thesis
    using h1 h2 h3
      mimetype_first_stored [where unzip = sample_unzip and inPath = "''in.epub''"
        and E = sample_engines and dir = "''/tmp/epub-compress-00''" and w = sample_world,
        OF h1 h2 h3 h4 h5]
    by (intro conjI) (elim conjE, assumption)+
qed

text \<open>The calls for the files are made in ascending order of the relative paths: once
  \<open>createEpub\<close> has opened the archive, the calls after the first are sorted by name; each
  names a file that \<open>walk\<close> found, other than \<^verbatim>\<open>mimetype\<close>, under its relative path, not
  stored but compressed at the archive's level, which is the caller's; and when
  \<open>createEpub\<close> returns without error they are all such files.\<close>

lemma calls_sorted_by_relative_path:
  assumes "existsSync t [''mimetype'']"
  shows "\<exists>a. snd (createEpub dir level t out) = Some a \<and> zlib_level a = level \<and>
           sorted (map name (tl (entries a))) \<and>
           (\<forall>e \<in> set (tl (entries a)).
              \<not> store e \<and> name e \<noteq> ''mimetype'' \<and>
              (\<exists>q \<in> set (walk t).
                 stat_isFile t q = Inr True \<and> source e = FromFile q \<and>
                 name e = relative q)) \<and>
           (fst (createEpub dir level t out) = None \<longrightarrow>
              tl (entries a) =
                map (\<lambda>q. \<lparr>name = relative q, source = FromFile q, store = False\<rparr>)
                  (filter (\<lambda>q. relative q \<noteq> ''mimetype'' \<and> stat_isFile t q = Inr True)
                     (sort_key (full dir) (walk t))))"
proof (cases "readFile t [''mimetype'']")
  case (Inl e)
  then have "createEpub dir level t out =
               (Some e, Some \<lparr>zlib_level = level, entries = [], finalized = False\<rparr>)"
    using assms by (simp add: createEpub_def Let_def)
  then show ?thesis by simp
next
  case (Inr c)
  define mk where "mk = (\<lambda>q. \<lparr>name = relative q, source = FromFile q, store = False\<rparr>)"
  define ok where "ok = (\<lambda>q. relative q \<noteq> ''mimetype'' \<and> stat_isFile t q = Inr True)"
  define go where "go = (\<lambda>q. relative q = ''mimetype'' \<or> \<not> isl (stat_isFile t q))"
  define S where "S = sort_key (full dir) (walk t)"
  have "\<exists>a. snd (createEpub dir level t out) = Some a \<and> zlib_level a = level \<and>
          entries a = \<lparr>name = ''mimetype'', source = Stream c, store = True\<rparr> #
            map mk (filter ok (takeWhile go S)) \<and>
          (fst (createEpub dir level t out) = None) = (\<forall>q \<in> set (walk t). go q)"
    unfolding mk_def ok_def go_def S_def
    by (rule createEpub_opened [OF assms Inr])
  then obtain a where a: "snd (createEpub dir level t out) = Some a"
    and lev: "zlib_level a = level"
    and ent: "entries a = \<lparr>name = ''mimetype'', source = Stream c, store = True\<rparr> #
                map mk (filter ok (takeWhile go S))"
    and ok: "(fst (createEpub dir level t out) = None) = (\<forall>q \<in> set (walk t). go q)"
    by (elim exE conjE)
  have tl: "tl (entries a) = map mk (filter ok (takeWhile go S))"
    using ent by simp
  have srt: "sorted (map name (tl (entries a)))"
    unfolding tl mk_def S_def by (rule added_sorted)
  have mem: "\<not> store e \<and> name e \<noteq> ''mimetype'' \<and>
             (\<exists>q \<in> set (walk t).
                stat_isFile t q = Inr True \<and> source e = FromFile q \<and> name e = relative q)"
    if "e \<in> set (tl (entries a))" for e
  proof -
    from that obtain q where q: "q \<in> set (takeWhile go S)" "ok q" "e = mk q"
      unfolding tl by auto
    have qw: "q \<in> set (walk t)"
      using set_takeWhileD [OF q(1)] by (simp add: S_def)
    have okq: "relative q \<noteq> ''mimetype''" "stat_isFile t q = Inr True"
      using q(2) by (simp_all add: ok_def)
    have e: "\<not> store e" "name e = relative q" "source e = FromFile q"
      using q(3) by (simp_all add: mk_def)
    show ?thesis
    proof (intro conjI bexI [of _ q])
      show "\<not> store e" by (rule e(1))
      show "name e \<noteq> ''mimetype''" using e(2) okq(1) by simp
      show "stat_isFile t q = Inr True" by (rule okq(2))
      show "source e = FromFile q" by (rule e(3))
      show "name e = relative q" by (rule e(2))
      show "q \<in> set (walk t)" by (rule qw)
    qed
  qed
  have all: "tl (entries a) = map mk (filter ok S)"
    if "fst (createEpub dir level t out) = None"
  proof -
    have "\<forall>q \<in> set S. go q" using that ok by (simp add: S_def)
    then have tw: "takeWhile go S = S"
      by (simp only: takeWhile_eq_all_conv)
    show ?thesis unfolding tl tw by (rule refl)
  qed
  show ?thesis
  proof (intro exI [of _ a] conjI ballI impI)
    show "snd (createEpub dir level t out) = Some a" by (rule a)
    show "zlib_level a = level" by (rule lev)
    show "sorted (map name (tl (entries a)))" by (rule srt)
    show "\<not> store e" if "e \<in> set (tl (entries a))" for e
      using mem [OF that] by (elim conjE)
    show "name e \<noteq> ''mimetype''" if "e \<in> set (tl (entries a))" for e
      using mem [OF that] by (elim conjE)
    show "\<exists>q \<in> set (walk t).
            stat_isFile t q = Inr True \<and> source e = FromFile q \<and> name e = relative q"
      if "e \<in> set (tl (entries a))" for e
      using mem [OF that] by (elim conjE)
    show "tl (entries a) =
            map (\<lambda>q. \<lparr>name = relative q, source = FromFile q, store = False\<rparr>)
              (filter (\<lambda>q. relative q \<noteq> ''mimetype'' \<and> stat_isFile t q = Inr True)
                 (sort_key (full dir) (walk t)))"
      if "fst (createEpub dir level t out) = None"
      using all [OF that] by (simp only: mk_def ok_def S_def)
  qed
qed

text \<open>C2 asks for the entries of the output, \<^verbatim>\<open>mimetype\<close> apart, in ascending order of
  their relative paths. The program makes its calls in that order (the lemma above), but
  awaits no entry before the next call, and the archiver writes the files in the order in
  which their \<^verbatim>\<open>lstat\<close> calls return: on the sample tree, when the second \<^verbatim>\<open>lstat\<close>
  returns before the first, \<^verbatim>\<open>OEBPS/bad.js\<close> is written before \<^verbatim>\<open>OEBPS/app.js\<close>.\<close>

theorem written_order_not_sorted:
  "call_names (snd (createEpub ''/tmp/epub-compress-00'' 9 sample_tree None)) =
     [''mimetype'', ''OEBPS/app.js'', ''OEBPS/bad.js'', ''OEBPS/cover.PNG'',
      ''OEBPS/style.css''] \<and>
   written_names [1] (snd (createEpub ''/tmp/epub-compress-00'' 9 sample_tree None)) =
     [''mimetype'', ''OEBPS/bad.js'', ''OEBPS/app.js'', ''OEBPS/cover.PNG'',
      ''OEBPS/style.css''] \<and>
   \<not> sorted (tl (written_names [1]
                  (snd (createEpub ''/tmp/epub-compress-00'' 9 sample_tree None))))"
  by code_simp

section \<open>Determinism of the archive\<close>

lemma leaf_at_Nil [simp]: "leaf_at [] s = False"
  by (cases s) (simp_all add: leaf_at_def)

lemma leaf_at_empty_path [simp]: "leaf_at t [] = False"
  by (simp add: leaf_at_def)

lemma map_of_absent: "n \<notin> set (map fst es) \<Longrightarrow> map_of es n = None"
  by (simp add: map_of_eq_None_iff)

lemma leaf_at_absent: "n \<notin> set (map fst es) \<Longrightarrow> leaf_at es (n # ns) = False"
  by (simp add: leaf_at_def map_of_absent)

lemma leaf_at_Cons_Dir:
  "n \<notin> set (map fst es) \<Longrightarrow>
     leaf_at ((n, Dir sub) # es) s = ((\<exists>ns. s = n # ns \<and> leaf_at sub ns) \<or> leaf_at es s)"
proof (cases s)
  case Nil
  then show ?thesis by simp
next
  case (Cons m ms)
  assume absent: "n \<notin> set (map fst es)"
  show ?thesis
  proof (cases "m = n")
    case True
    have "leaf_at ((n, Dir sub) # es) (n # ms) = leaf_at sub ms"
      by (cases ms) (simp_all add: leaf_at_def)
    then show ?thesis using Cons True leaf_at_absent [OF absent] by simp
  next
    case False
    then have "leaf_at ((n, Dir sub) # es) (m # ms) = leaf_at es (m # ms)"
      by (simp add: leaf_at_def)
    then show ?thesis using Cons False by simp
  qed
qed

lemma leaf_at_Cons_other:
  "n \<notin> set (map fst es) \<Longrightarrow> (\<And>sub. nd \<noteq> Dir sub) \<Longrightarrow>
     leaf_at ((n, nd) # es) s = ((s = [n] \<and> pushed nd) \<or> leaf_at es s)"
proof (cases s)
  case Nil
  then show ?thesis by simp
next
  case (Cons m ms)
  assume absent: "n \<notin> set (map fst es)" and nodir: "\<And>sub. nd \<noteq> Dir sub"
  show ?thesis
  proof (cases "m = n")
    case True
    have "leaf_at ((n, nd) # es) (n # ms) = (ms = [] \<and> pushed nd)"
      using nodir by (cases nd) (auto simp: leaf_at_def)
    then show ?thesis using Cons True leaf_at_absent [OF absent] by auto
  next
    case False
    then have "leaf_at ((n, nd) # es) (m # ms) = leaf_at es (m # ms)"
      by (simp add: leaf_at_def)
    then show ?thesis using Cons False by simp
  qed
qed

lemma walk_dir_iff:
  "wf_tree t \<Longrightarrow> (q \<in> set (walk_dir pre t)) = (\<exists>s. q = pre @ s \<and> leaf_at t s)"
proof (induction pre t rule: walk_dir.induct)
  case (1 p)
  then show ?case by simp
next
  case (2 p name sub es)
  then have absent: "name \<notin> set (map fst es)" and wfs: "wf_tree sub" and wfe: "wf_tree es"
    by simp_all
  have "(q \<in> set (walk_dir p ((name, Dir sub) # es))) =
          ((\<exists>s. q = (p @ [name]) @ s \<and> leaf_at sub s) \<or> (\<exists>s. q = p @ s \<and> leaf_at es s))"
    using "2.IH"(1) [OF wfs] "2.IH"(2) [OF wfe] by simp
  also have "\<dots> = (\<exists>s. q = p @ s \<and> leaf_at ((name, Dir sub) # es) s)"
    unfolding leaf_at_Cons_Dir [OF absent] by auto
  finally show ?case .
next
  case (3 p name c es)
  then have absent: "name \<notin> set (map fst es)" and wfe: "wf_tree es"
    by simp_all
  have "(q \<in> set (walk_dir p ((name, File c) # es))) =
          (q = p @ [name] \<or> (\<exists>s. q = p @ s \<and> leaf_at es s))"
    using "3.IH" [OF wfe] by simp
  also have "\<dots> = (\<exists>s. q = p @ s \<and> leaf_at ((name, File c) # es) s)"
    by (subst leaf_at_Cons_other [OF absent]) auto
  finally show ?case .
next
  case (4 p name l es)
  then have absent: "name \<notin> set (map fst es)" and wfe: "wf_tree es"
    by simp_all
  have "(q \<in> set (walk_dir p ((name, Symlink l) # es))) =
          (q = p @ [name] \<or> (\<exists>s. q = p @ s \<and> leaf_at es s))"
    using "4.IH" [OF wfe] by simp
  also have "\<dots> = (\<exists>s. q = p @ s \<and> leaf_at ((name, Symlink l) # es) s)"
    by (subst leaf_at_Cons_other [OF absent]) auto
  finally show ?case .
next
  case (5 p name es)
  then have absent: "name \<notin> set (map fst es)" and wfe: "wf_tree es"
    by simp_all
  have "(q \<in> set (walk_dir p ((name, Special) # es))) = (\<exists>s. q = p @ s \<and> leaf_at es s)"
    using "5.IH" [OF wfe] by simp
  also have "\<dots> = (\<exists>s. q = p @ s \<and> leaf_at ((name, Special) # es) s)"
    by (subst leaf_at_Cons_other [OF absent]) auto
  finally show ?case .
qed

lemma leaf_at_lstat:
  "leaf_at t s = (case lstat t s of None \<Rightarrow> False | Some nd \<Rightarrow> pushed nd)"
proof (cases "node_at t s")
  case None
  then show ?thesis by (simp add: leaf_at_def lstat_def)
next
  case (Some nd)
  then show ?thesis by (cases nd) (simp_all add: leaf_at_def lstat_def)
qed

lemma set_walk: "wf_tree t \<Longrightarrow> set (walk t) = {s. leaf_at t s}"
  by (auto simp: walk_def walk_dir_iff)

lemma wf_tree_Cons:
  "wf_tree ((m, nd) # es) \<Longrightarrow> valid_name m \<and> wf_tree es \<and> (\<forall>sub. nd = Dir sub \<longrightarrow> wf_tree sub)"
  by (cases nd) simp_all

lemma wf_tree_member:
  "wf_tree t \<Longrightarrow> (n, nd) \<in> set t \<Longrightarrow>
     valid_name n \<and> (\<forall>sub. nd = Dir sub \<longrightarrow> wf_tree sub)"
proof (induction t)
  case Nil
  then show ?case by simp
next
  case (Cons e es)
  obtain m nd' where e: "e = (m, nd')" by (cases e)
  from wf_tree_Cons [of m nd' es] Cons.prems(1) e
  have hd: "valid_name m \<and> (\<forall>sub. nd' = Dir sub \<longrightarrow> wf_tree sub)" and tl: "wf_tree es"
    by simp_all
  show ?case
  proof (cases "(n, nd) = e")
    case True
    then show ?thesis using hd e by simp
  next
    case False
    then have "(n, nd) \<in> set es" using Cons.prems(2) by simp
    then show ?thesis using Cons.IH [OF tl] by simp
  qed
qed

lemma wf_tree_entry:
  "wf_tree t \<Longrightarrow> map_of t n = Some nd \<Longrightarrow>
     valid_name n \<and> (\<forall>sub. nd = Dir sub \<longrightarrow> wf_tree sub)"
  using wf_tree_member [of t n nd] map_of_SomeD [of t n nd] by simp

lemma node_at_valid:
  "wf_tree t \<Longrightarrow> node_at t s = Some nd \<Longrightarrow> \<forall>x \<in> set s. valid_name x"
proof (induction s arbitrary: t)
  case Nil
  then show ?case by simp
next
  case (Cons n ns)
  from Cons.prems(2) obtain nd' where m: "map_of t n = Some nd'"
    by (cases "map_of t n") auto
  from wf_tree_entry [OF Cons.prems(1) m]
  have vn: "valid_name n" and sub: "\<forall>sub. nd' = Dir sub \<longrightarrow> wf_tree sub" by auto
  show ?case
  proof (cases "ns = []")
    case True
    then show ?thesis using vn by simp
  next
    case False
    then obtain sub where d: "nd' = Dir sub" and rest: "node_at sub ns = Some nd"
      using Cons.prems(2) m by (cases nd') auto
    have "wf_tree sub" using sub d by simp
    from Cons.IH [OF this rest] show ?thesis using vn by simp
  qed
qed

lemma walk_valid:
  "wf_tree t \<Longrightarrow> q \<in> set (walk t) \<Longrightarrow> \<forall>x \<in> set q. CHR ''/'' \<notin> set x"
proof -
  assume wf: "wf_tree t" and q: "q \<in> set (walk t)"
  then have "leaf_at t q" by (simp add: set_walk)
  then obtain nd where "node_at t q = Some nd"
    by (cases "node_at t q") (auto simp: leaf_at_def)
  from node_at_valid [OF wf this] show ?thesis
    by (simp add: valid_name_def)
qed

lemma slash_free_split:
  "CHR ''/'' \<notin> set x \<Longrightarrow> CHR ''/'' \<notin> set y \<Longrightarrow> x @ r1 = y @ r2 \<Longrightarrow>
     r1 = [] \<or> hd r1 = CHR ''/'' \<Longrightarrow> r2 = [] \<or> hd r2 = CHR ''/'' \<Longrightarrow>
     x = y \<and> r1 = r2"
proof (induction x arbitrary: y)
  case Nil
  then show ?case by (cases y) auto
next
  case (Cons c cs)
  show ?case
  proof (cases y)
    case Nil
    then show ?thesis using Cons.prems by auto
  next
    case (Cons d ds)
    then show ?thesis using Cons.prems Cons.IH [of ds] by auto
  qed
qed

lemma concat_slash_head:
  "concat (map (\<lambda>s. CHR ''/'' # s) p) = [] \<or> hd (concat (map (\<lambda>s. CHR ''/'' # s) p)) = CHR ''/''"
  by (cases p) simp_all

lemma full_inj:
  "\<forall>x \<in> set p. CHR ''/'' \<notin> set x \<Longrightarrow> \<forall>x \<in> set q. CHR ''/'' \<notin> set x \<Longrightarrow>
     full dir p = full dir q \<Longrightarrow> p = q"
proof (induction p arbitrary: q)
  case Nil
  then show ?case by (cases q) (simp_all add: full_def)
next
  case (Cons x xs)
  show ?case
  proof (cases q)
    case Nil
    then show ?thesis using Cons.prems by (simp add: full_def)
  next
    case (Cons y ys)
    have eq: "x @ concat (map (\<lambda>s. CHR ''/'' # s) xs) = y @ concat (map (\<lambda>s. CHR ''/'' # s) ys)"
      using Cons.prems(3) Cons by (simp add: full_def)
    have "x = y \<and> concat (map (\<lambda>s. CHR ''/'' # s) xs) = concat (map (\<lambda>s. CHR ''/'' # s) ys)"
      using Cons.prems(1,2) Cons
      by (intro slash_free_split [OF _ _ eq] concat_slash_head) simp_all
    then have xy: "x = y" and f: "full dir xs = full dir ys"
      by (simp_all add: full_def)
    have px: "\<forall>x \<in> set xs. CHR ''/'' \<notin> set x"
      using Cons.prems(1) by simp
    have py: "\<forall>x \<in> set ys. CHR ''/'' \<notin> set x"
      using Cons.prems(2) Cons by simp
    have "xs = ys"
      using px py f by (rule Cons.IH)
    then show ?thesis using xy Cons by simp
  qed
qed

lemma sort_key_determined:
  assumes "set xs = set ys" and "distinct xs" and "distinct ys" and "inj_on f (set xs)"
  shows "sort_key f xs = sort_key f ys"
proof (rule sort_key_inj_key_eq)
  show "mset xs = mset (sort_key f ys)"
    using assms(1,2,3) by (simp add: set_eq_iff_mset_eq_distinct)
  show "inj_on f (set xs)" by (rule assms(4))
  show "sorted (map f (sort_key f ys))" by (rule sorted_sort_key)
qed

lemma add_files_cong:
  "(\<And>q. stat_isFile t q = stat_isFile t' q) \<Longrightarrow> add_files t files a = add_files t' files a"
  by (induction files arbitrary: a) (simp_all add: Let_def split: sum.splits)

text \<open>The calls depend on the state of the working tree and on the level only, not on
  the order in which directories list their entries: on two well-formed trees that hold
  the same entry at every path \<open>createEpub\<close> makes the same calls in the same order.\<close>

lemma calls_independent_of_listing_order:
  assumes "wf_tree t" and "wf_tree t'" and "\<forall>p. lstat t p = lstat t' p"
  shows "createEpub dir level t out = createEpub dir level t' out \<and>
         (\<forall>p. readFile t p = readFile t' p)"
proof -
  have ls: "\<And>p. lstat t p = lstat t' p"
    using assms(3) by simp
  have ex: "\<And>p. existsSync t p = existsSync t' p"
    by (simp add: existsSync_def ls)
  have rd: "\<And>p. readFile t p = readFile t' p"
    by (simp add: readFile_def ls)
  have st: "\<And>p. stat_isFile t p = stat_isFile t' p"
    by (simp add: stat_isFile_def ls)
  have sw: "set (walk t) = set (walk t')"
    using assms(1,2) by (simp add: set_walk leaf_at_lstat ls)
  have d: "distinct (walk t)" and d': "distinct (walk t')"
    using assms(1,2) by (simp_all add: walk_def distinct_walk_dir)
  have inj: "inj_on (full dir) (set (walk t))"
  proof (rule inj_onI)
    fix p q
    assume "p \<in> set (walk t)" and "q \<in> set (walk t)" and "full dir p = full dir q"
    then show "p = q"
      using walk_valid [OF assms(1)] by (intro full_inj [of p q dir]) simp_all
  qed
  have sk: "sort_key (full dir) (walk t) = sort_key (full dir) (walk t')"
    using sw d d' inj by (rule sort_key_determined)
  have af: "\<And>files a. add_files t files a = add_files t' files a"
    by (rule add_files_cong) (rule st)
  have "createEpub dir level t out = createEpub dir level t' out"
    unfolding createEpub_def ex rd sk af by (rule refl)
  then show ?thesis using rd by simp
qed

text \<open>C9 asks that two runs on one tree and one level give the same order of entries. The
  calls are the same, but the order written follows the order in which the archiver's
  \<^verbatim>\<open>lstat\<close> calls return, which the program does not control: on the sample tree, a run
  in which they return in the order of the calls and a run in which the second returns
  first write different orders.\<close>

theorem written_order_varies:
  "written_names [] (snd (createEpub ''/tmp/epub-compress-00'' 9 sample_tree None)) =
     [''mimetype'', ''OEBPS/app.js'', ''OEBPS/bad.js'', ''OEBPS/cover.PNG'',
      ''OEBPS/style.css''] \<and>
   written_names [1] (snd (createEpub ''/tmp/epub-compress-00'' 9 sample_tree None)) =
     [''mimetype'', ''OEBPS/bad.js'', ''OEBPS/app.js'', ''OEBPS/cover.PNG'',
      ''OEBPS/style.css''] \<and>
   written_names [] (snd (createEpub ''/tmp/epub-compress-00'' 9 sample_tree None)) \<noteq>
   written_names [1] (snd (createEpub ''/tmp/epub-compress-00'' 9 sample_tree None))"
  by code_simp

end
